theory Spec2Isabelle
  imports Main "HOL-Library.Word"
begin

unbundle bit_operations_syntax

section \<open>VSX vectors\<close>

text \<open>
  A 128-bit VSX register is modelled by its two 64-bit elements, element 0 first.
  The casts of the source between \<open>v2du\<close>, \<open>v4su\<close> and \<open>v16qu\<close> reinterpret the same
  register; elements are numbered as on little-endian POWER8 (ppc64le), where element 0
  of a narrower view is the least significant part of element 0 of the wider one.
\<close>

type_synonym u8 = "8 word"
type_synonym u32 = "32 word"
type_synonym u64 = "64 word"

type_synonym v2du = "u64 \<times> u64"
type_synonym v4su = "u32 list"
type_synonym v16qu = "u8 list"

definition le_bytes :: "u64 \<Rightarrow> u8 list" where
  "le_bytes w = map (\<lambda>k. ucast (drop_bit (8 * k) w)) [0..<8]"

definition le_word :: "u8 list \<Rightarrow> u64" where
  "le_word bs = foldr (\<lambda>b acc. ucast b OR push_bit 8 acc) bs 0"

definition to_v16qu :: "v2du \<Rightarrow> v16qu" where
  "to_v16qu x = le_bytes (fst x) @ le_bytes (snd x)"

definition to_v2du :: "v16qu \<Rightarrow> v2du" where
  "to_v2du bs = (le_word (take 8 bs), le_word (take 8 (drop 8 bs)))"

definition to_v4su :: "v2du \<Rightarrow> v4su" where
  "to_v4su x = [ucast (fst x), ucast (drop_bit 32 (fst x)),
                ucast (snd x), ucast (drop_bit 32 (snd x))]"

definition vec_add :: "v2du \<Rightarrow> v2du \<Rightarrow> v2du" where
  "vec_add x y = (fst x + fst y, snd x + snd y)"

definition vec_xor :: "v2du \<Rightarrow> v2du \<Rightarrow> v2du" where
  "vec_xor x y = (fst x XOR fst y, snd x XOR snd y)"

text \<open>\<open>vec_sr\<close> and \<open>vec_sl\<close> shift each element by the low six bits of the count.\<close>

definition vec_sr :: "v2du \<Rightarrow> v2du \<Rightarrow> v2du" where
  "vec_sr x s = (drop_bit (unat (fst s) mod 64) (fst x), drop_bit (unat (snd s) mod 64) (snd x))"

definition vec_sl :: "v2du \<Rightarrow> v2du \<Rightarrow> v2du" where
  "vec_sl x s = (push_bit (unat (fst s) mod 64) (fst x), push_bit (unat (snd s) mod 64) (snd x))"

text \<open>\<open>vec_mule\<close> on \<open>v4su\<close>: the full 64-bit products of the even elements 0 and 2.\<close>

definition vec_mule :: "v4su \<Rightarrow> v4su \<Rightarrow> v2du" where
  "vec_mule x y = (ucast (x ! 0) * ucast (y ! 0), ucast (x ! 2) * ucast (y ! 2))"

text \<open>\<open>vec_perm a b p\<close>: byte \<open>i\<close> of the result is byte \<open>p[i] mod 32\<close> of \<open>a\<close> followed by \<open>b\<close>.\<close>

definition vec_perm :: "v16qu \<Rightarrow> v16qu \<Rightarrow> v16qu \<Rightarrow> v16qu" where
  "vec_perm a b p = map (\<lambda>c. (a @ b) ! (unat c mod 32)) p"

definition ROT32_PERM :: v16qu where
  "ROT32_PERM = [4,5,6,7, 0,1,2,3, 12,13,14,15, 8,9,10,11]"

definition ROT24_PERM :: v16qu where
  "ROT24_PERM = [3,4,5,6,7,0,1,2, 11,12,13,14,15,8,9,10]"

definition ROT16_PERM :: v16qu where
  "ROT16_PERM = [2,3,4,5,6,7,0,1, 10,11,12,13,14,15,8,9]"

definition ALIGNR8_01 :: v16qu where
  "ALIGNR8_01 = [8,9,10,11,12,13,14,15, 16,17,18,19,20,21,22,23]"

definition ALIGNR8_10 :: v16qu where
  "ALIGNR8_10 = [8,9,10,11,12,13,14,15, 16,17,18,19,20,21,22,23]"

section \<open>blamka-round-vsx.h\<close>

definition fBlaMka_vsx :: "v2du \<Rightarrow> v2du \<Rightarrow> v2du" where
  "fBlaMka_vsx x y =
     (let x32 = to_v4su x;
          y32 = to_v4su y;
          z = vec_mule x32 y32
      in vec_add (vec_add x y) (vec_add z z))"

text \<open>
  The macro \<open>VSX_ROTI_EPI64(x, c)\<close>; \<open>c\<close> is the (negative) constant of the call site.
\<close>

definition VSX_ROTI_EPI64 :: "v2du \<Rightarrow> int \<Rightarrow> v2du" where
  "VSX_ROTI_EPI64 x c =
     (if - c = 32 then to_v2du (vec_perm (to_v16qu x) (to_v16qu x) ROT32_PERM)
      else if - c = 24 then to_v2du (vec_perm (to_v16qu x) (to_v16qu x) ROT24_PERM)
      else if - c = 16 then to_v2du (vec_perm (to_v16qu x) (to_v16qu x) ROT16_PERM)
      else if - c = 63 then vec_xor (vec_sr x (63, 63)) (vec_add x x)
      else vec_xor (vec_sr x (word_of_int (- c), word_of_int (- c)))
                   (vec_sl x (word_of_int (64 - (- c)), word_of_int (64 - (- c)))))"

type_synonym vsx8 = "v2du \<times> v2du \<times> v2du \<times> v2du \<times> v2du \<times> v2du \<times> v2du \<times> v2du"

fun G1_VSX :: "vsx8 \<Rightarrow> vsx8" where
  "G1_VSX (A0, B0, C0, D0, A1, B1, C1, D1) =
     (let A0 = fBlaMka_vsx A0 B0;
          A1 = fBlaMka_vsx A1 B1;
          D0 = vec_xor D0 A0;
          D1 = vec_xor D1 A1;
          D0 = VSX_ROTI_EPI64 D0 (- 32);
          D1 = VSX_ROTI_EPI64 D1 (- 32);
          C0 = fBlaMka_vsx C0 D0;
          C1 = fBlaMka_vsx C1 D1;
          B0 = vec_xor B0 C0;
          B1 = vec_xor B1 C1;
          B0 = VSX_ROTI_EPI64 B0 (- 24);
          B1 = VSX_ROTI_EPI64 B1 (- 24)
      in (A0, B0, C0, D0, A1, B1, C1, D1))"

fun G2_VSX :: "vsx8 \<Rightarrow> vsx8" where
  "G2_VSX (A0, B0, C0, D0, A1, B1, C1, D1) =
     (let A0 = fBlaMka_vsx A0 B0;
          A1 = fBlaMka_vsx A1 B1;
          D0 = vec_xor D0 A0;
          D1 = vec_xor D1 A1;
          D0 = VSX_ROTI_EPI64 D0 (- 16);
          D1 = VSX_ROTI_EPI64 D1 (- 16);
          C0 = fBlaMka_vsx C0 D0;
          C1 = fBlaMka_vsx C1 D1;
          B0 = vec_xor B0 C0;
          B1 = vec_xor B1 C1;
          B0 = VSX_ROTI_EPI64 B0 (- 63);
          B1 = VSX_ROTI_EPI64 B1 (- 63)
      in (A0, B0, C0, D0, A1, B1, C1, D1))"

fun DIAGONALIZE_VSX :: "vsx8 \<Rightarrow> vsx8" where
  "DIAGONALIZE_VSX (A0, B0, C0, D0, A1, B1, C1, D1) =
     (let t0 = vec_perm (to_v16qu B0) (to_v16qu B1) ALIGNR8_01;
          t1 = vec_perm (to_v16qu B1) (to_v16qu B0) ALIGNR8_01;
          B0 = to_v2du t0;
          B1 = to_v2du t1;
          tmp = C0;
          C0 = C1;
          C1 = tmp;
          t0 = vec_perm (to_v16qu D0) (to_v16qu D1) ALIGNR8_01;
          t1 = vec_perm (to_v16qu D1) (to_v16qu D0) ALIGNR8_01;
          D0 = to_v2du t1;
          D1 = to_v2du t0
      in (A0, B0, C0, D0, A1, B1, C1, D1))"

fun UNDIAGONALIZE_VSX :: "vsx8 \<Rightarrow> vsx8" where
  "UNDIAGONALIZE_VSX (A0, B0, C0, D0, A1, B1, C1, D1) =
     (let t0 = vec_perm (to_v16qu B1) (to_v16qu B0) ALIGNR8_01;
          t1 = vec_perm (to_v16qu B0) (to_v16qu B1) ALIGNR8_01;
          B0 = to_v2du t0;
          B1 = to_v2du t1;
          tmp = C0;
          C0 = C1;
          C1 = tmp;
          t0 = vec_perm (to_v16qu D1) (to_v16qu D0) ALIGNR8_01;
          t1 = vec_perm (to_v16qu D0) (to_v16qu D1) ALIGNR8_01;
          D0 = to_v2du t1;
          D1 = to_v2du t0
      in (A0, B0, C0, D0, A1, B1, C1, D1))"

text \<open>
  \<open>BLAKE2_ROUND_VSX(A0, A1, B0, B1, C0, C1, D0, D1)\<close>: the parameters come in the order
  of the eight consecutive registers; the macros it calls take them regrouped.
\<close>

fun BLAKE2_ROUND_VSX :: "vsx8 \<Rightarrow> vsx8" where
  "BLAKE2_ROUND_VSX (A0, A1, B0, B1, C0, C1, D0, D1) =
     (case UNDIAGONALIZE_VSX (G2_VSX (G1_VSX (DIAGONALIZE_VSX
              (G2_VSX (G1_VSX (A0, B0, C0, D0, A1, B1, C1, D1)))))) of
        (A0, B0, C0, D0, A1, B1, C1, D1) \<Rightarrow> (A0, A1, B0, B1, C0, C1, D0, D1))"

declare G1_VSX.simps [simp del] G2_VSX.simps [simp del] DIAGONALIZE_VSX.simps [simp del]
  UNDIAGONALIZE_VSX.simps [simp del] BLAKE2_ROUND_VSX.simps [simp del]

section \<open>opt-vsx.c: the block function\<close>

text \<open>
  A \<open>block\<close> is the array \<open>v\<close> of 128 words of 64 bits; \<open>vsx_block_t state[64]\<close> is a list
  of 64 registers. Indexing is in range wherever the lists have these lengths.
\<close>

type_synonym block = "u64 list"

text \<open>
  Modelled from the spec: the constants of \<open>argon2.h\<close> and \<open>core.h\<close>, which are not among
  the sources: a block has 1024 bytes (128 words, 128 addresses), a lane has four slices,
  and the older format revision is version 1.0, number \<open>0x10\<close>.
\<close>

definition ARGON2_BLOCK_SIZE :: nat where
  "ARGON2_BLOCK_SIZE = 1024"

definition ARGON2_QWORDS_IN_BLOCK :: nat where
  "ARGON2_QWORDS_IN_BLOCK = ARGON2_BLOCK_SIZE div 8"

definition ARGON2_ADDRESSES_IN_BLOCK :: nat where
  "ARGON2_ADDRESSES_IN_BLOCK = 128"

definition ARGON2_SYNC_POINTS :: nat where
  "ARGON2_SYNC_POINTS = 4"

definition ARGON2_VERSION_10 :: u32 where
  "ARGON2_VERSION_10 = 0x10"

definition ARGON2_VSX_OWORDS_IN_BLOCK :: nat where
  "ARGON2_VSX_OWORDS_IN_BLOCK = ARGON2_BLOCK_SIZE div 16"

text \<open>\<open>VSX_LOADU(p + k)\<close> and \<open>VSX_STOREU(p + k, val)\<close> on the words of a block.\<close>

definition VSX_LOADU :: "block \<Rightarrow> nat \<Rightarrow> v2du" where
  "VSX_LOADU v k = (v ! k, v ! (k + 1))"

definition VSX_STOREU :: "block \<Rightarrow> nat \<Rightarrow> v2du \<Rightarrow> block" where
  "VSX_STOREU v k val = v[k := fst val, k + 1 := snd val]"

text \<open>One \<open>BLAKE2_ROUND_VSX\<close> on eight registers of \<open>state\<close>, updated in place.\<close>

definition round_at ::
  "nat \<Rightarrow> nat \<Rightarrow> nat \<Rightarrow> nat \<Rightarrow> nat \<Rightarrow> nat \<Rightarrow> nat \<Rightarrow> nat \<Rightarrow> v2du list \<Rightarrow> v2du list" where
  "round_at i0 i1 i2 i3 i4 i5 i6 i7 st =
     (case BLAKE2_ROUND_VSX (st ! i0, st ! i1, st ! i2, st ! i3, st ! i4, st ! i5, st ! i6, st ! i7) of
        (r0, r1, r2, r3, r4, r5, r6, r7) \<Rightarrow>
          st[i0 := r0, i1 := r1, i2 := r2, i3 := r3, i4 := r4, i5 := r5, i6 := r6, i7 := r7])"

definition row_round :: "nat \<Rightarrow> v2du list \<Rightarrow> v2du list" where
  "row_round i st =
     round_at (8 * i + 0) (8 * i + 1) (8 * i + 2) (8 * i + 3)
              (8 * i + 4) (8 * i + 5) (8 * i + 6) (8 * i + 7) st"

definition column_round :: "nat \<Rightarrow> v2du list \<Rightarrow> v2du list" where
  "column_round i st =
     round_at (8 * 0 + i) (8 * 1 + i) (8 * 2 + i) (8 * 3 + i)
              (8 * 4 + i) (8 * 5 + i) (8 * 6 + i) (8 * 7 + i) st"

text \<open>The two middle loops of \<open>fill_block\<close>: 8 row rounds, then 8 column rounds.\<close>

definition permute :: "v2du list \<Rightarrow> v2du list" where
  "permute st = fold column_round [0..<8] (fold row_round [0..<8] st)"

text \<open>
  \<open>fill_block\<close> returns the new \<open>state\<close> and the new contents of \<open>next_block\<close>. Both blocks
  are read in the first loop and \<open>next_block\<close> is written in the last one only, so a
  \<open>ref_block\<close> that is the same block as \<open>next_block\<close> is read before it changes. The local
  \<open>block_XY\<close> is written at every index before it is read; it starts here at zero.
\<close>

definition fill_block :: "v2du list \<Rightarrow> block \<Rightarrow> block \<Rightarrow> bool \<Rightarrow> v2du list \<times> block" where
  "fill_block state0 ref_block next_block with_xor =
     (let block_XY0 = replicate ARGON2_VSX_OWORDS_IN_BLOCK (0, 0);
          (state1, block_XY) =
            (if with_xor then
               fold (\<lambda>i (st, xy).
                       let st' = st[i := vec_xor (st ! i) (VSX_LOADU ref_block (i * 2))];
                           xy' = xy[i := vec_xor (st' ! i) (VSX_LOADU next_block (i * 2))]
                       in (st', xy'))
                    [0..<ARGON2_VSX_OWORDS_IN_BLOCK] (state0, block_XY0)
             else
               fold (\<lambda>i (st, xy).
                       let x = vec_xor (st ! i) (VSX_LOADU ref_block (i * 2))
                       in (st[i := x], xy[i := x]))
                    [0..<ARGON2_VSX_OWORDS_IN_BLOCK] (state0, block_XY0));
          state2 = fold row_round [0..<8] state1;
          state3 = fold column_round [0..<8] state2
      in fold (\<lambda>i (st, nb).
                 let st' = st[i := vec_xor (st ! i) (block_XY ! i)]
                 in (st', VSX_STOREU nb (i * 2) (st' ! i)))
              [0..<ARGON2_VSX_OWORDS_IN_BLOCK] (state3, next_block))"

definition next_addresses :: "block \<Rightarrow> block \<Rightarrow> block \<times> block" where
  "next_addresses address_block input_block =
     (let zero_block = replicate ARGON2_VSX_OWORDS_IN_BLOCK (0, 0);
          zero2_block = replicate ARGON2_VSX_OWORDS_IN_BLOCK (0, 0);
          input_block' = input_block[6 := input_block ! 6 + 1];
          address_block' = snd (fill_block zero_block input_block' address_block False);
          address_block'' = snd (fill_block zero2_block address_block' address_block' False)
      in (address_block'', input_block'))"

section \<open>opt-vsx.c: the segment filler\<close>

text \<open>
  Modelled from the spec: the declarations of \<open>argon2.h\<close> and \<open>core.h\<close>, which are not among
  the sources. The variant is an enumeration (data-dependent, data-independent, hybrid,
  numbered 0, 1, 2 as in the Argon2 reference); the instance holds the configuration as
  32-bit unsigned fields, as the 32-bit offsets of \<open>fill_segment\<close> have it; a position is
  pass, lane, slice (8 bits) and index. The field \<open>type\<close> of the instance is \<open>variant\<close> here.
  The field \<open>memory\<close> of the instance points to the block matrix: the matrix is passed to
  the functions below and returned by them.
\<close>

datatype argon2_type = Argon2_d | Argon2_i | Argon2_id

fun argon2_type_value :: "argon2_type \<Rightarrow> u64" where
  "argon2_type_value Argon2_d = 0"
| "argon2_type_value Argon2_i = 1"
| "argon2_type_value Argon2_id = 2"

record argon2_instance_t =
  version :: u32
  passes :: u32
  memory_blocks :: u32
  segment_length :: u32
  lane_length :: u32
  lanes :: u32
  variant :: argon2_type

record argon2_position_t =
  pass :: u32
  lane :: u32
  slice :: u8
  index :: u32

text \<open>
  \<open>index_alpha\<close> and \<open>init_block_value\<close> of \<open>core.c\<close> are not among the sources; they are
  parameters of the model. \<open>index_alpha\<close> is a function of the instance, the position, the
  low 32 bits of the pseudo-random value and the same-lane flag; \<open>init_block_value\<close> gives
  the contents of a block from the byte it is called with.
\<close>

type_synonym index_alpha_t = "argon2_instance_t \<Rightarrow> argon2_position_t \<Rightarrow> u32 \<Rightarrow> bool \<Rightarrow> u32"

type_synonym init_block_value_t = "u8 \<Rightarrow> block"

text \<open>
  What is undefined behaviour in C is an error of the model: a remainder by zero and an
  access outside the block matrix.
\<close>

datatype error = DivisionByZero | OutOfBounds

text \<open>The local variables of \<open>fill_segment\<close> that live across loop iterations.\<close>

record segment_vars =
  seg_memory :: "block list"
  seg_state :: "v2du list"
  seg_address_block :: block
  seg_input_block :: block
  seg_prev_offset :: u32
  seg_curr_offset :: u32
  seg_i :: u32

definition data_independent_addressing :: "argon2_instance_t \<Rightarrow> argon2_position_t \<Rightarrow> bool" where
  "data_independent_addressing instance position \<longleftrightarrow>
     variant instance = Argon2_i \<or>
     (variant instance = Argon2_id \<and> pass position = 0 \<and>
      unat (slice position) < ARGON2_SYNC_POINTS div 2)"

definition starting_index :: "argon2_position_t \<Rightarrow> u32" where
  "starting_index position = (if 0 = pass position \<and> 0 = slice position then 2 else 0)"

text \<open>\<open>memcpy(state, (instance->memory + prev_offset)->v, ARGON2_BLOCK_SIZE)\<close>.\<close>

definition load_state :: "block \<Rightarrow> v2du list" where
  "load_state b = map (\<lambda>k. VSX_LOADU b (k * 2)) [0..<ARGON2_VSX_OWORDS_IN_BLOCK]"

text \<open>
  Lines 98 to 133: everything before the loop. \<open>address_block0\<close> and \<open>input_block0\<close> are
  the contents of the two uninitialised local blocks at entry.
\<close>

definition fill_segment_init ::
  "init_block_value_t \<Rightarrow> block \<Rightarrow> block \<Rightarrow> argon2_instance_t \<Rightarrow> argon2_position_t \<Rightarrow> block list \<Rightarrow> error + segment_vars" where
  "fill_segment_init init_block_value address_block0 input_block0 instance position mem =
     (let di = data_independent_addressing instance position;
          input_block =
            (if di then
               (init_block_value 0)
                 [0 := ucast (pass position),
                  1 := ucast (lane position),
                  2 := ucast (slice position),
                  3 := ucast (memory_blocks instance),
                  4 := ucast (passes instance),
                  5 := argon2_type_value (variant instance)]
             else input_block0);
          (address_block, input_block) =
            (if 0 = pass position \<and> 0 = slice position \<and> di
             then next_addresses address_block0 input_block
             else (address_block0, input_block));
          curr_offset = lane position * lane_length instance +
                        ucast (slice position) * segment_length instance +
                        starting_index position
      in if lane_length instance = 0 then Inl DivisionByZero
         else
           let prev_offset =
                 (if 0 = curr_offset mod lane_length instance
                  then curr_offset + lane_length instance - 1
                  else curr_offset - 1)
           in if unat prev_offset < length mem
              then Inr \<lparr>seg_memory = mem,
                        seg_state = load_state (mem ! unat prev_offset),
                        seg_address_block = address_block,
                        seg_input_block = input_block,
                        seg_prev_offset = prev_offset,
                        seg_curr_offset = curr_offset,
                        seg_i = starting_index position\<rparr>
              else Inl OutOfBounds)"

text \<open>Lines 137 to 139: the first statement of the loop body.\<close>

definition rotate_prev_offset :: "argon2_instance_t \<Rightarrow> u32 \<Rightarrow> u32 \<Rightarrow> u32" where
  "rotate_prev_offset instance curr_offset prev_offset =
     (if curr_offset mod lane_length instance = 1 then curr_offset - 1 else prev_offset)"

text \<open>
  Lines 141 to 148: the pseudo-random value of the iteration, with the address block and
  the input block as the iteration leaves them.
\<close>

definition draw_pseudo_rand ::
  "argon2_instance_t \<Rightarrow> argon2_position_t \<Rightarrow> block list \<Rightarrow> u32 \<Rightarrow> u32 \<Rightarrow> block \<Rightarrow> block \<Rightarrow>
   error + (u64 \<times> block \<times> block)" where
  "draw_pseudo_rand instance position mem prev_offset i address_block input_block =
     (if data_independent_addressing instance position then
        (let (address_block', input_block') =
               (if unat i mod ARGON2_ADDRESSES_IN_BLOCK = 0
                then next_addresses address_block input_block
                else (address_block, input_block))
         in Inr (address_block' ! (unat i mod ARGON2_ADDRESSES_IN_BLOCK),
                 address_block', input_block'))
      else if unat prev_offset < length mem
      then Inr (mem ! unat prev_offset ! 0, address_block, input_block)
      else Inl OutOfBounds)"

text \<open>Lines 150 to 154.\<close>

definition select_ref_lane :: "argon2_instance_t \<Rightarrow> argon2_position_t \<Rightarrow> u64 \<Rightarrow> error + u64" where
  "select_ref_lane instance position pseudo_rand =
     (if lanes instance = 0 then Inl DivisionByZero
      else
        let ref_lane = drop_bit 32 pseudo_rand mod ucast (lanes instance)
        in Inr (if pass position = 0 \<and> slice position = 0
                then ucast (lane position) else ref_lane))"

text \<open>Lines 163 to 171: the flag \<open>with_xor\<close> of the call of \<open>fill_block\<close>.\<close>

definition with_xor_flag :: "argon2_instance_t \<Rightarrow> argon2_position_t \<Rightarrow> bool" where
  "with_xor_flag instance position =
     (if ARGON2_VERSION_10 = version instance then False
      else if 0 = pass position then False else True)"

text \<open>The loop body, lines 137 to 171; the three increments of the loop header follow it.\<close>

definition fill_segment_body ::
  "index_alpha_t \<Rightarrow> argon2_instance_t \<Rightarrow> argon2_position_t \<Rightarrow> segment_vars \<Rightarrow> error + segment_vars" where
  "fill_segment_body index_alpha instance position s =
     (if lane_length instance = 0 then Inl DivisionByZero
      else
        let prev_offset = rotate_prev_offset instance (seg_curr_offset s) (seg_prev_offset s)
        in case draw_pseudo_rand instance position (seg_memory s) prev_offset (seg_i s)
                  (seg_address_block s) (seg_input_block s) of
             Inl e \<Rightarrow> Inl e
           | Inr (pseudo_rand, address_block, input_block) \<Rightarrow>
               (case select_ref_lane instance position pseudo_rand of
                  Inl e \<Rightarrow> Inl e
                | Inr ref_lane \<Rightarrow>
                    let position' = position\<lparr>index := seg_i s\<rparr>;
                        ref_index = (ucast (index_alpha instance position'
                                       (ucast (pseudo_rand AND 0xFFFFFFFF))
                                       (ref_lane = ucast (lane position))) :: u64);
                        ref_block = unat (ucast (lane_length instance) * ref_lane) + unat ref_index;
                        curr_block = unat (seg_curr_offset s)
                    in if ref_block < length (seg_memory s) \<and> curr_block < length (seg_memory s)
                       then
                         let (state', next_block') =
                               fill_block (seg_state s) (seg_memory s ! ref_block)
                                 (seg_memory s ! curr_block) (with_xor_flag instance position)
                         in Inr (s\<lparr>seg_memory := (seg_memory s)[curr_block := next_block'],
                                    seg_state := state',
                                    seg_address_block := address_block,
                                    seg_input_block := input_block,
                                    seg_prev_offset := prev_offset\<rparr>)
                       else Inl OutOfBounds))"

text \<open>\<open>++i, ++curr_offset, ++prev_offset\<close>.\<close>

definition advance :: "segment_vars \<Rightarrow> segment_vars" where
  "advance s = s\<lparr>seg_i := seg_i s + 1,
                 seg_curr_offset := seg_curr_offset s + 1,
                 seg_prev_offset := seg_prev_offset s + 1\<rparr>"

function fill_segment_loop ::
  "index_alpha_t \<Rightarrow> argon2_instance_t \<Rightarrow> argon2_position_t \<Rightarrow> segment_vars \<Rightarrow> error + segment_vars" where
  "fill_segment_loop index_alpha instance position s =
     (if seg_i s < segment_length instance then
        (case fill_segment_body index_alpha instance position s of
           Inl e \<Rightarrow> Inl e
         | Inr s' \<Rightarrow> fill_segment_loop index_alpha instance position (advance (s'\<lparr>seg_i := seg_i s\<rparr>)))
      else Inr s)"
  by pat_completeness auto

termination
proof (relation "measure (\<lambda>(f, inst, pos, s). unat (segment_length inst) - unat (seg_i s))")
  show "wf (measure (\<lambda>(f, inst, pos, s). unat (segment_length inst) - unat (seg_i s)))"
    by simp
next
  fix f :: index_alpha_t and inst :: argon2_instance_t and pos :: argon2_position_t
    and s s' :: segment_vars
  assume lt: "seg_i s < segment_length inst"
  then have less: "unat (seg_i s) < unat (segment_length inst)"
    by (simp add: word_less_nat_alt)
  have "unat (segment_length inst) < 2 ^ 32"
    using unsigned_less [of "segment_length inst"] by simp
  with less have "unat (seg_i s) + 1 < 2 ^ 32"
    by simp
  then have "unat (seg_i s + 1) = unat (seg_i s) + 1"
    by (simp add: unat_word_ariths)
  with less show "((f, inst, pos, advance (s'\<lparr>seg_i := seg_i s\<rparr>)), (f, inst, pos, s))
          \<in> measure (\<lambda>(f, inst, pos, s). unat (segment_length inst) - unat (seg_i s))"
    by (simp add: advance_def)
qed

declare fill_segment_loop.simps [simp del]

text \<open>\<open>fill_segment\<close>: a null instance is \<open>None\<close>; the result is the block matrix.\<close>

definition fill_segment ::
  "index_alpha_t \<Rightarrow> init_block_value_t \<Rightarrow> block \<Rightarrow> block \<Rightarrow> argon2_instance_t option \<Rightarrow> argon2_position_t \<Rightarrow>
   block list \<Rightarrow> error + block list" where
  "fill_segment index_alpha init_block_value address_block0 input_block0 instance position mem =
     (case instance of
        None \<Rightarrow> Inr mem
      | Some inst \<Rightarrow>
          (case fill_segment_init init_block_value address_block0 input_block0 inst position mem of
             Inl e \<Rightarrow> Inl e
           | Inr s \<Rightarrow>
               (case fill_segment_loop index_alpha inst position s of
                  Inl e \<Rightarrow> Inl e
                | Inr s' \<Rightarrow> Inr (seg_memory s'))))"

text \<open>
  The states at the head of the loop: \<open>iteration index_alpha inst pos s0 s\<close> holds when
  the loop started in \<open>s0\<close> reaches its condition with the variables \<open>s\<close>.
\<close>

inductive iteration ::
  "index_alpha_t \<Rightarrow> argon2_instance_t \<Rightarrow> argon2_position_t \<Rightarrow> segment_vars \<Rightarrow> segment_vars \<Rightarrow> bool"
  for index_alpha inst pos s0 where
  iteration_first: "iteration index_alpha inst pos s0 s0"
| iteration_next:
    "iteration index_alpha inst pos s0 s \<Longrightarrow>
     seg_i s < segment_length inst \<Longrightarrow>
     fill_segment_body index_alpha inst pos s = Inr s' \<Longrightarrow>
     iteration index_alpha inst pos s0 (advance (s'\<lparr>seg_i := seg_i s\<rparr>))"

code_pred iteration .

section \<open>The formulas of the specification\<close>

text \<open>The combining primitive \<open>f\<close> on 64-bit words, with \<open>lo32\<close> the low 32 bits.\<close>

definition lo32 :: "u64 \<Rightarrow> u64" where
  "lo32 x = take_bit 32 x"

definition fBlaMka :: "u64 \<Rightarrow> u64 \<Rightarrow> u64" where
  "fBlaMka x y = x + y + 2 * (lo32 x * lo32 y)"

text \<open>A quarter-round on one quadruple of words, with its two rotation distances.\<close>

fun quarter_round :: "nat \<Rightarrow> nat \<Rightarrow> u64 \<times> u64 \<times> u64 \<times> u64 \<Rightarrow> u64 \<times> u64 \<times> u64 \<times> u64" where
  "quarter_round r1 r2 (A, B, C, D) =
     (let A' = fBlaMka A B;
          D' = word_rotr r1 (D XOR A');
          C' = fBlaMka C D';
          B' = word_rotr r2 (B XOR C')
      in (A', B', C', D'))"

text \<open>The four quadruples of words that eight registers \<open>A0, B0, C0, D0, A1, B1, C1, D1\<close> hold.\<close>

fun quadruples :: "vsx8 \<Rightarrow> (u64 \<times> u64 \<times> u64 \<times> u64) list" where
  "quadruples (A0, B0, C0, D0, A1, B1, C1, D1) =
     [(fst A0, fst B0, fst C0, fst D0), (snd A0, snd B0, snd C0, snd D0),
      (fst A1, fst B1, fst C1, fst D1), (snd A1, snd B1, snd C1, snd D1)]"

text \<open>The eight registers of a round as a list, in the order of the parameters.\<close>

fun vsx8_list :: "vsx8 \<Rightarrow> v2du list" where
  "vsx8_list (r0, r1, r2, r3, r4, r5, r6, r7) = [r0, r1, r2, r3, r4, r5, r6, r7]"

text \<open>The 128 words of 64 registers, and the element-wise XOR of two blocks.\<close>

definition words_of :: "v2du list \<Rightarrow> block" where
  "words_of vs = concat (map (\<lambda>x. [fst x, snd x]) vs)"

definition block_xor :: "block \<Rightarrow> block \<Rightarrow> block" where
  "block_xor a b = map2 (XOR) a b"

text \<open>The permutation network on the 128 words of a block.\<close>

definition permute_words :: "block \<Rightarrow> block" where
  "permute_words b = words_of (permute (load_state b))"

text \<open>
  The Mixing Core as the specification words it: the post-XOR state includes
  \<open>next_block\<close> when \<open>accumulate\<close> is set, it is saved, permuted, and XORed with the
  saved copy. The result is the new state and the new \<open>next_block\<close>.
\<close>

definition fill_block_claimed :: "block \<Rightarrow> block \<Rightarrow> block \<Rightarrow> bool \<Rightarrow> block" where
  "fill_block_claimed s r n accumulate =
     (let x = (if accumulate then block_xor (block_xor s r) n else block_xor s r);
          pre_permutation = x
      in block_xor (permute_words x) pre_permutation)"

text \<open>What the Mixing Core writes when it overwrites: the compression of state and reference.\<close>

definition compress :: "block \<Rightarrow> block \<Rightarrow> block" where
  "compress s r = block_xor (permute_words (block_xor s r)) (block_xor s r)"

text \<open>
  The offset that precedes offset \<open>c\<close> in the circular order of its lane, for lanes of
  \<open>n\<close> blocks: the last offset of the lane when \<open>c\<close> is the first one.
\<close>

definition lane_predecessor :: "nat \<Rightarrow> nat \<Rightarrow> nat" where
  "lane_predecessor n c = (c div n) * n + (c mod n + n - 1) mod n"

text \<open>The offset of the first block of the segment of a position.\<close>

definition first_offset :: "argon2_instance_t \<Rightarrow> argon2_position_t \<Rightarrow> nat" where
  "first_offset instance position =
     unat (lane position) * unat (lane_length instance) +
     unat (slice position) * unat (segment_length instance)"

text \<open>
  The rule for \<open>prev_offset\<close> inside the loop as the specification words it: recomputed
  with lane-wrap when \<open>curr_offset\<close> is on the first position of the lane.
\<close>

definition rotate_prev_offset_claimed :: "argon2_instance_t \<Rightarrow> u32 \<Rightarrow> u32 \<Rightarrow> u32" where
  "rotate_prev_offset_claimed instance curr_offset prev_offset =
     (if curr_offset mod lane_length instance = 0
      then curr_offset + lane_length instance - 1 else prev_offset)"

text \<open>
  An instance as the orchestrator builds it: four segments to a lane, at least one lane,
  the position inside the matrix, and the matrix within the 32-bit offsets of the code.
\<close>

definition valid_instance :: "argon2_instance_t \<Rightarrow> argon2_position_t \<Rightarrow> bool" where
  "valid_instance instance position \<longleftrightarrow>
     0 < unat (segment_length instance) \<and>
     unat (lane_length instance) = ARGON2_SYNC_POINTS * unat (segment_length instance) \<and>
     unat (lane position) < unat (lanes instance) \<and>
     unat (slice position) < ARGON2_SYNC_POINTS \<and>
     unat (lanes instance) * unat (lane_length instance) < 2 ^ 32"

definition valid_memory :: "argon2_instance_t \<Rightarrow> block list \<Rightarrow> bool" where
  "valid_memory instance mem \<longleftrightarrow>
     length mem = unat (lanes instance) * unat (lane_length instance) \<and>
     (\<forall>b \<in> set mem. length b = ARGON2_QWORDS_IN_BLOCK)"

section \<open>A small instance\<close>

text \<open>
  One lane of eight blocks in four segments of two, all blocks zero, during the second
  pass over the first segment of the lane; \<open>example_vars\<close> are the variables of
  \<open>fill_segment\<close> when it reaches the loop.
\<close>

definition example_instance :: argon2_instance_t where
  "example_instance =
     \<lparr>version = 0x13, passes = 2, memory_blocks = 8, segment_length = 2, lane_length = 8,
      lanes = 1, variant = Argon2_d\<rparr>"

definition example_position :: argon2_position_t where
  "example_position = \<lparr>pass = 1, lane = 0, slice = 0, index = 0\<rparr>"

definition example_index_alpha :: index_alpha_t where
  "example_index_alpha = (\<lambda>_ _ _ _. 0)"

definition example_init_block_value :: init_block_value_t where
  "example_init_block_value b = replicate 128 (le_word (replicate 8 b))"

definition example_memory :: "block list" where
  "example_memory = replicate 8 (replicate 128 0)"

definition example_vars :: segment_vars where
  "example_vars =
     \<lparr>seg_memory = example_memory,
      seg_state = replicate 64 (0, 0),
      seg_address_block = replicate 128 0,
      seg_input_block = replicate 128 0,
      seg_prev_offset = 7,
      seg_curr_offset = 0,
      seg_i = 0\<rparr>"

text \<open>
  Two lanes of sixteen blocks, all zero, in the first pass over the first segment of lane
  1, at the first index the loop fills.
\<close>

definition example2_instance :: argon2_instance_t where
  "example2_instance =
     \<lparr>version = 0x13, passes = 1, memory_blocks = 32, segment_length = 4, lane_length = 16,
      lanes = 2, variant = Argon2_d\<rparr>"

definition example2_position :: argon2_position_t where
  "example2_position = \<lparr>pass = 0, lane = 1, slice = 0, index = 0\<rparr>"

definition example2_memory :: "block list" where
  "example2_memory = replicate 32 (replicate 128 0)"

definition example2_vars :: segment_vars where
  "example2_vars =
     \<lparr>seg_memory = example2_memory,
      seg_state = replicate 64 (0, 0),
      seg_address_block = replicate 128 0,
      seg_input_block = replicate 128 0,
      seg_prev_offset = 17,
      seg_curr_offset = 18,
      seg_i = 2\<rparr>"

text \<open>
  An instance that no orchestrator builds: lanes of four blocks with segments of eight, so
  that the loop runs from one lane into the next. \<open>example3_vars i c p\<close> are the variables
  of the loop at index \<open>i\<close> with \<open>curr_offset = c\<close> and \<open>prev_offset = p\<close>.
\<close>

definition example3_instance :: argon2_instance_t where
  "example3_instance =
     \<lparr>version = 0x13, passes = 2, memory_blocks = 8, segment_length = 8, lane_length = 4,
      lanes = 2, variant = Argon2_d\<rparr>"

definition example3_vars :: "u32 \<Rightarrow> u32 \<Rightarrow> u32 \<Rightarrow> segment_vars" where
  "example3_vars i c p =
     \<lparr>seg_memory = example_memory,
      seg_state = replicate 64 (0, 0),
      seg_address_block = replicate 128 0,
      seg_input_block = replicate 128 0,
      seg_prev_offset = p,
      seg_curr_offset = c,
      seg_i = i\<rparr>"





section \<open>Registers as bytes and words\<close>

lemma le_word_Cons: "le_word (b # bs) = ucast b OR push_bit 8 (le_word bs)"
  by (simp add: le_word_def)

lemma bit_le_word:
  "bit (le_word bs) n \<longleftrightarrow> n < 64 \<and> n div 8 < length bs \<and> bit (bs ! (n div 8)) (n mod 8)"
proof (induction bs arbitrary: n)
  case Nil
  show ?case by (simp add: le_word_def)
next
  case (Cons b bs)
  show ?case
  proof (cases "n < 8")
    case True
    then show ?thesis
      by (simp add: le_word_Cons bit_simps)
  next
    case False
    then have n8: "8 \<le> n" by simp
    have d: "n div 8 = Suc ((n - 8) div 8)" using n8
      by (simp add: le_div_geq)
    have m: "n mod 8 = (n - 8) mod 8" using n8
      by (simp add: le_mod_geq)
    have nb: "\<not> bit b n" using n8 bit_imp_le_length[of b n] by auto
    show ?thesis
      using n8 nb by (auto simp add: le_word_Cons bit_simps Cons.IH d m)
  qed
qed

lemma nth_le_bytes: "k < 8 \<Longrightarrow> le_bytes w ! k = ucast (drop_bit (8 * k) w)"
  by (simp add: le_bytes_def)

lemma length_le_bytes: "length (le_bytes w) = 8"
  by (simp add: le_bytes_def)

lemma le_word_bytes: "le_word (le_bytes w) = w"
proof (rule bit_word_eqI)
  fix n assume "n < LENGTH(64)"
  then have n: "n < 64" by simp
  then have k: "n div 8 < 8" by simp
  have "8 * (n div 8) + n mod 8 = n" by simp
  then show "bit (le_word (le_bytes w)) n = bit w n"
    using n k by (simp add: bit_le_word length_le_bytes nth_le_bytes bit_simps)
qed

lemma to_v2du_bytes: "to_v2du (le_bytes a @ le_bytes b) = (a, b)"
  by (simp add: to_v2du_def length_le_bytes le_word_bytes)

text \<open>Moving the bytes of a word down by \<open>j\<close> places, cyclically, rotates it right by \<open>8 j\<close> bits.\<close>

lemma le_word_rot:
  assumes "j < 8"
  shows "le_word (map (\<lambda>k. ucast (drop_bit (8 * ((k + j) mod 8)) w)) [0..<8]) = word_rotr (8 * j) w"
proof (rule bit_word_eqI)
  fix n assume "n < LENGTH(64)"
  then have n: "n < 64" by simp
  then have k: "n div 8 < 8" by simp
  have a: "8 * ((n div 8 + j) mod 8) + n mod 8 = (n + 8 * j) mod 64"
  proof -
    have "(n + 8 * j) mod (8 * 8) = 8 * ((n + 8 * j) div 8 mod 8) + (n + 8 * j) mod 8"
      by (rule mod_mult2_eq)
    then show ?thesis by (simp add: add.commute)
  qed
  have b: "n mod 8 < 8" by simp
  show "bit (le_word (map (\<lambda>k. ucast (drop_bit (8 * ((k + j) mod 8)) w)) [0..<8])) n
         = bit (word_rotr (8 * j) w) n"
    using n k b by (simp add: bit_le_word bit_simps a bit_word_rotr_iff)
qed

lemma bytes_explicit:
  "le_bytes w = [ucast w, ucast (drop_bit 8 w), ucast (drop_bit 16 w), ucast (drop_bit 24 w),
     ucast (drop_bit 32 w), ucast (drop_bit 40 w), ucast (drop_bit 48 w), ucast (drop_bit 56 w)]"
  by (simp add: le_bytes_def upt_rec)

lemma perm_rot24:
  "le_word [ucast (drop_bit 24 w), ucast (drop_bit 32 w), ucast (drop_bit 40 w),
     ucast (drop_bit 48 w), ucast (drop_bit 56 w), ucast w, ucast (drop_bit 8 w),
     ucast (drop_bit 16 w)] = word_rotr 24 w"
  using le_word_rot [of 3 w] by (simp add: upt_rec)

lemma perm_rot16:
  "le_word [ucast (drop_bit 16 w), ucast (drop_bit 24 w), ucast (drop_bit 32 w),
     ucast (drop_bit 40 w), ucast (drop_bit 48 w), ucast (drop_bit 56 w), ucast w,
     ucast (drop_bit 8 w)] = word_rotr 16 w"
  using le_word_rot [of 2 w] by (simp add: upt_rec)

lemma perm_rot32:
  "le_word [ucast (drop_bit 32 w), ucast (drop_bit 40 w), ucast (drop_bit 48 w),
     ucast (drop_bit 56 w), ucast w, ucast (drop_bit 8 w), ucast (drop_bit 16 w),
     ucast (drop_bit 24 w)] = word_rotr 32 w"
  using le_word_rot [of 4 w] by (simp add: upt_rec)

lemma rot24_vsx: "VSX_ROTI_EPI64 x (- 24) = (word_rotr 24 (fst x), word_rotr 24 (snd x))"
  by (simp add: VSX_ROTI_EPI64_def vec_perm_def ROT24_PERM_def to_v16qu_def to_v2du_def
      bytes_explicit perm_rot24)

lemma rot16_vsx: "VSX_ROTI_EPI64 x (- 16) = (word_rotr 16 (fst x), word_rotr 16 (snd x))"
  by (simp add: VSX_ROTI_EPI64_def vec_perm_def ROT16_PERM_def to_v16qu_def to_v2du_def
      bytes_explicit perm_rot16)

lemma rot32_vsx: "VSX_ROTI_EPI64 x (- 32) = (word_rotr 32 (fst x), word_rotr 32 (snd x))"
  by (simp add: VSX_ROTI_EPI64_def vec_perm_def ROT32_PERM_def to_v16qu_def to_v2du_def
      bytes_explicit perm_rot32)

lemma rotr63: "drop_bit 63 w XOR 2 * w = word_rotr 63 (w :: u64)"
proof (rule bit_word_eqI)
  fix n assume "n < LENGTH(64)"
  then have n: "n < 64" by simp
  have d: "bit (2 * w) n \<longleftrightarrow> 0 < n \<and> bit w (n - 1)"
    using n by (auto simp add: bit_double_iff)
  have a: "0 < n \<Longrightarrow> (n + 63) mod 64 = n - 1" using n by (simp add: mod_if)
  have s: "bit (drop_bit 63 w) n \<longleftrightarrow> n = 0 \<and> bit w 63"
    using bit_imp_le_length [of w "63 + n"] by (cases "n = 0") (auto simp add: bit_simps)
  show "bit (drop_bit 63 w XOR 2 * w) n = bit (word_rotr 63 w) n"
    unfolding bit_xor_iff d s using n a
    by (cases "n = 0") (simp_all add: bit_word_rotr_iff)
qed

lemma rot63_vsx: "VSX_ROTI_EPI64 x (- 63) = (word_rotr 63 (fst x), word_rotr 63 (snd x))"
  by (simp add: VSX_ROTI_EPI64_def vec_xor_def vec_sr_def vec_add_def rotr63)

lemma alignr8:
  "to_v2du (vec_perm (to_v16qu a) (to_v16qu b) ALIGNR8_01) = (snd a, fst b)"
proof -
  have "vec_perm (to_v16qu a) (to_v16qu b) ALIGNR8_01 = le_bytes (snd a) @ le_bytes (fst b)"
    by (simp add: vec_perm_def ALIGNR8_01_def to_v16qu_def bytes_explicit)
  then show ?thesis by (simp add: to_v2du_bytes)
qed

section \<open>The combining primitive\<close>

lemma unat_ucast_32: "unat (ucast (a :: u64) :: u32) = unat a mod 2 ^ 32"
  by (simp add: unsigned_ucast_eq take_bit_eq_mod)

lemma unat_ucast_up: "unat (ucast (a :: u32) :: u64) = unat a"
  by (simp add: unsigned_ucast_eq take_bit_nat_eq_self
      order_less_trans [OF unsigned_less [of a, simplified]])

lemma ucast_lo32: "(ucast (ucast (a :: u64) :: u32) :: u64) = lo32 a"
  unfolding lo32_def by (rule bit_word_eqI) (auto simp add: bit_simps)

lemma fBlaMka_vsx_lanes:
  "fBlaMka_vsx x y = (fBlaMka (fst x) (fst y), fBlaMka (snd x) (snd y))"
  by (simp add: fBlaMka_vsx_def to_v4su_def vec_mule_def vec_add_def Let_def fBlaMka_def
      ucast_lo32)

text \<open>
  C2. In both elements of the registers, \<open>fBlaMka_vsx\<close> computes
  \<open>(x + y + 2 * (lo32 x * lo32 y)) mod 2^64\<close>, where \<open>lo32\<close> is the value of the low 32
  bits: the sum wraps around and is never saturated.
\<close>

theorem fBlaMka_vsx_value:
  "unat (fst (fBlaMka_vsx x y)) =
     (unat (fst x) + unat (fst y) +
      2 * ((unat (fst x) mod 2 ^ 32) * (unat (fst y) mod 2 ^ 32))) mod 2 ^ 64 \<and>
   unat (snd (fBlaMka_vsx x y)) =
     (unat (snd x) + unat (snd y) +
      2 * ((unat (snd x) mod 2 ^ 32) * (unat (snd y) mod 2 ^ 32))) mod 2 ^ 64"
  by (simp add: fBlaMka_vsx_def to_v4su_def vec_mule_def vec_add_def Let_def
      unat_word_ariths unat_ucast_32 unat_ucast_up mod_simps)

section \<open>The quarter-rounds\<close>

lemma G1_VSX_lanes: "quadruples (G1_VSX v) = map (quarter_round 32 24) (quadruples v)"
proof -
  obtain A0 B0 C0 D0 A1 B1 C1 D1 where v: "v = (A0, B0, C0, D0, A1, B1, C1, D1)"
    by (cases v) auto
  show ?thesis
    unfolding v
    by (simp add: G1_VSX.simps Let_def fBlaMka_vsx_lanes rot32_vsx rot24_vsx vec_xor_def)
qed

lemma G2_VSX_lanes: "quadruples (G2_VSX v) = map (quarter_round 16 63) (quadruples v)"
proof -
  obtain A0 B0 C0 D0 A1 B1 C1 D1 where v: "v = (A0, B0, C0, D0, A1, B1, C1, D1)"
    by (cases v) auto
  show ?thesis
    unfolding v
    by (simp add: G2_VSX.simps Let_def fBlaMka_vsx_lanes rot16_vsx rot63_vsx vec_xor_def)
qed

text \<open>
  C3. On each of the quadruples of words in the eight registers, \<open>G1_VSX\<close> computes
  \<open>A = f(A,B); D = rotate_right(D xor A, 32); C = f(C,D); B = rotate_right(B xor C, 24)\<close>,
  and \<open>G2_VSX\<close> the same sequence with the distances 16 and 63; the rotations are right
  rotations of 64-bit words.
\<close>

theorem G1_G2_VSX_quarter_rounds:
  "quadruples (G1_VSX v) = map (quarter_round 32 24) (quadruples v) \<and>
   quadruples (G2_VSX v) = map (quarter_round 16 63) (quadruples v)"
  by (simp only: G1_VSX_lanes G2_VSX_lanes)

section \<open>Diagonalization\<close>

lemma DIAGONALIZE_VSX_eq:
  "DIAGONALIZE_VSX (A0, B0, C0, D0, A1, B1, C1, D1) =
     (A0, (snd B0, fst B1), C1, (snd D1, fst D0), A1, (snd B1, fst B0), C0, (snd D0, fst D1))"
  by (simp add: DIAGONALIZE_VSX.simps Let_def alignr8)

lemma UNDIAGONALIZE_VSX_eq:
  "UNDIAGONALIZE_VSX (A0, B0, C0, D0, A1, B1, C1, D1) =
     (A0, (snd B1, fst B0), C1, (snd D0, fst D1), A1, (snd B0, fst B1), C0, (snd D1, fst D0))"
  by (simp add: UNDIAGONALIZE_VSX.simps Let_def alignr8)

text \<open>
  C4. For all values of the eight registers, \<open>UNDIAGONALIZE_VSX\<close> after
  \<open>DIAGONALIZE_VSX\<close> gives the original values back.
\<close>

theorem UNDIAGONALIZE_DIAGONALIZE:
  "UNDIAGONALIZE_VSX (DIAGONALIZE_VSX (A0, B0, C0, D0, A1, B1, C1, D1)) =
     (A0, B0, C0, D0, A1, B1, C1, D1)"
  by (simp only: DIAGONALIZE_VSX_eq UNDIAGONALIZE_VSX_eq fst_conv snd_conv prod.collapse)

section \<open>The loops of the block function\<close>

lemma fold_upt_Suc: "fold f [0..<Suc k] a = f k (fold f [0..<k] a)"
  by simp

lemma nth_append_drop: "k < length xs \<Longrightarrow> length A = k \<Longrightarrow> (A @ drop k xs) ! k = xs ! k"
  by (simp add: nth_append)

lemma update_append_drop:
  "k < length xs \<Longrightarrow> length A = k \<Longrightarrow> (A @ drop k xs)[k := v] = (A @ [v]) @ drop (Suc k) xs"
  by (simp add: list_update_append Cons_nth_drop_Suc [symmetric])

lemma length_words_of: "length (words_of vs) = 2 * length vs"
  by (induction vs) (simp_all add: words_of_def)

lemma words_of_snoc: "words_of (vs @ [v]) = words_of vs @ [fst v, snd v]"
  by (simp add: words_of_def)

lemma words_of_nth:
  "i < length vs \<Longrightarrow> words_of vs ! (2 * i) = fst (vs ! i) \<and> words_of vs ! (2 * i + 1) = snd (vs ! i)"
proof (induction vs arbitrary: i)
  case Nil
  then show ?case by simp
next
  case (Cons v vs)
  show ?case
  proof (cases i)
    case 0
    then show ?thesis by (simp add: words_of_def)
  next
    case (Suc j)
    with Cons.prems have j: "j < length vs" by simp
    have w: "words_of (v # vs) = fst v # snd v # words_of vs"
      by (simp add: words_of_def)
    show ?thesis
      using Cons.IH [OF j] by (simp add: w Suc)
  qed
qed

lemma loop_xor_plain:
  assumes "k \<le> length s" "k \<le> length xy"
  shows "fold (\<lambda>i (st, xy).
                 let x = vec_xor (st ! i) (VSX_LOADU r (i * 2))
                 in (st[i := x], xy[i := x])) [0..<k] (s, xy) =
         (map (\<lambda>i. vec_xor (s ! i) (VSX_LOADU r (i * 2))) [0..<k] @ drop k s,
          map (\<lambda>i. vec_xor (s ! i) (VSX_LOADU r (i * 2))) [0..<k] @ drop k xy)"
  using assms
proof (induction k)
  case 0
  show ?case by simp
next
  case (Suc k)
  then have k: "k < length s" "k < length xy" by simp_all
  show ?case
    unfolding fold_upt_Suc Suc.IH [OF less_imp_le [OF k(1)] less_imp_le [OF k(2)]]
    using k by (simp add: Let_def nth_append_drop update_append_drop)
qed

lemma loop_xor_accumulate:
  assumes "k \<le> length s" "k \<le> length xy"
  shows "fold (\<lambda>i (st, xy).
                 let st' = st[i := vec_xor (st ! i) (VSX_LOADU r (i * 2))];
                     xy' = xy[i := vec_xor (st' ! i) (VSX_LOADU n (i * 2))]
                 in (st', xy')) [0..<k] (s, xy) =
         (map (\<lambda>i. vec_xor (s ! i) (VSX_LOADU r (i * 2))) [0..<k] @ drop k s,
          map (\<lambda>i. vec_xor (vec_xor (s ! i) (VSX_LOADU r (i * 2))) (VSX_LOADU n (i * 2))) [0..<k]
            @ drop k xy)"
  using assms
proof (induction k)
  case 0
  show ?case by simp
next
  case (Suc k)
  then have k: "k < length s" "k < length xy" by simp_all
  show ?case
    unfolding fold_upt_Suc Suc.IH [OF less_imp_le [OF k(1)] less_imp_le [OF k(2)]]
    using k by (simp add: Let_def nth_append_drop update_append_drop nth_append)
qed

lemma store_append_drop:
  assumes "2 * k + 1 < length n" "length W = 2 * k"
  shows "VSX_STOREU (W @ drop (2 * k) n) (k * 2) v = (W @ [fst v, snd v]) @ drop (2 * Suc k) n"
proof -
  have a: "(W @ drop (2 * k) n)[2 * k := fst v] = (W @ [fst v]) @ drop (Suc (2 * k)) n"
    using assms by (intro update_append_drop) simp_all
  have b: "((W @ [fst v]) @ drop (Suc (2 * k)) n)[Suc (2 * k) := snd v]
            = ((W @ [fst v]) @ [snd v]) @ drop (Suc (Suc (2 * k))) n"
    using assms by (intro update_append_drop) simp_all
  show ?thesis
    unfolding VSX_STOREU_def using a b by (simp add: mult.commute)
qed

lemma loop_store:
  assumes "k \<le> length s" "2 * k \<le> length n"
  shows "fold (\<lambda>i (st, nb).
                 let st' = st[i := vec_xor (st ! i) (xy ! i)]
                 in (st', VSX_STOREU nb (i * 2) (st' ! i))) [0..<k] (s, n) =
         (map (\<lambda>i. vec_xor (s ! i) (xy ! i)) [0..<k] @ drop k s,
          words_of (map (\<lambda>i. vec_xor (s ! i) (xy ! i)) [0..<k]) @ drop (2 * k) n)"
  using assms
proof (induction k)
  case 0
  show ?case by (simp add: words_of_def)
next
  case (Suc k)
  then have k: "k < length s" "2 * k + 1 < length n" by simp_all
  have ih: "fold (\<lambda>i (st, nb).
                 let st' = st[i := vec_xor (st ! i) (xy ! i)]
                 in (st', VSX_STOREU nb (i * 2) (st' ! i))) [0..<k] (s, n) =
         (map (\<lambda>i. vec_xor (s ! i) (xy ! i)) [0..<k] @ drop k s,
          words_of (map (\<lambda>i. vec_xor (s ! i) (xy ! i)) [0..<k]) @ drop (2 * k) n)"
    using Suc.IH k by simp
  have len: "length (words_of (map (\<lambda>i. vec_xor (s ! i) (xy ! i)) [0..<k])) = 2 * k"
    by (simp add: length_words_of)
  show ?case
    unfolding fold_upt_Suc ih
    using k by (simp add: Let_def nth_append_drop update_append_drop
        store_append_drop [OF k(2) len] words_of_snoc nth_append)
qed


lemma length_round_at [simp]: "length (round_at i0 i1 i2 i3 i4 i5 i6 i7 st) = length st"
  by (simp add: round_at_def split: prod.splits)

lemma length_row_round [simp]: "length (row_round i st) = length st"
  by (simp add: row_round_def)

lemma length_column_round [simp]: "length (column_round i st) = length st"
  by (simp add: column_round_def)

lemma length_fold_same: "(\<And>i xs. length (f i xs) = length xs) \<Longrightarrow> length (fold f is xs) = length xs"
  by (induction "is" arbitrary: xs) simp_all

lemma length_permute [simp]: "length (permute st) = length st"
  by (simp add: permute_def length_fold_same)

text \<open>The three loops of fill_block as maps over the 64 registers.\<close>

lemma fill_block_registers:
  assumes s: "length s = ARGON2_VSX_OWORDS_IN_BLOCK"
    and n: "length n = ARGON2_QWORDS_IN_BLOCK"
  shows "fill_block s r n w =
     (let x = map (\<lambda>i. vec_xor (s ! i) (VSX_LOADU r (i * 2))) [0..<ARGON2_VSX_OWORDS_IN_BLOCK];
          pre = (if w then map (\<lambda>i. vec_xor (x ! i) (VSX_LOADU n (i * 2)))
                              [0..<ARGON2_VSX_OWORDS_IN_BLOCK]
                 else x);
          p = permute x;
          res = map (\<lambda>i. vec_xor (p ! i) (pre ! i)) [0..<ARGON2_VSX_OWORDS_IN_BLOCK]
      in (res, words_of res))"
proof -
  let ?N = ARGON2_VSX_OWORDS_IN_BLOCK
  let ?x = "map (\<lambda>i. vec_xor (s ! i) (VSX_LOADU r (i * 2))) [0..<?N]"
  let ?xn = "map (\<lambda>i. vec_xor (vec_xor (s ! i) (VSX_LOADU r (i * 2))) (VSX_LOADU n (i * 2))) [0..<?N]"
  have N: "?N = 64" by (simp add: ARGON2_VSX_OWORDS_IN_BLOCK_def ARGON2_BLOCK_SIZE_def)
  have n2: "length n = 2 * ?N"
    using n by (simp add: ARGON2_QWORDS_IN_BLOCK_def ARGON2_VSX_OWORDS_IN_BLOCK_def ARGON2_BLOCK_SIZE_def)
  have l1: "fold (\<lambda>i (st, xy).
                 let x = vec_xor (st ! i) (VSX_LOADU r (i * 2))
                 in (st[i := x], xy[i := x])) [0..<?N] (s, replicate ?N (0, 0)) = (?x, ?x)"
    using loop_xor_plain [of ?N s "replicate ?N (0, 0)" r] s by simp
  have l2: "fold (\<lambda>i (st, xy).
                 let st' = st[i := vec_xor (st ! i) (VSX_LOADU r (i * 2))];
                     xy' = xy[i := vec_xor (st' ! i) (VSX_LOADU n (i * 2))]
                 in (st', xy')) [0..<?N] (s, replicate ?N (0, 0)) = (?x, ?xn)"
    using loop_xor_accumulate [of ?N s "replicate ?N (0, 0)" r n] s by simp
  have xn: "?xn = map (\<lambda>i. vec_xor (?x ! i) (VSX_LOADU n (i * 2))) [0..<?N]"
    by simp
  have l3: "\<And>xy. fold (\<lambda>i (st, nb).
                 let st' = st[i := vec_xor (st ! i) (xy ! i)]
                 in (st', VSX_STOREU nb (i * 2) (st' ! i))) [0..<?N] (permute ?x, n) =
         (map (\<lambda>i. vec_xor (permute ?x ! i) (xy ! i)) [0..<?N],
          words_of (map (\<lambda>i. vec_xor (permute ?x ! i) (xy ! i)) [0..<?N]))"
    subgoal for xy
      using loop_store [of ?N "permute ?x" n xy] n2 by simp
    done
  show ?thesis
  proof (cases w)
    case True
    show ?thesis
      unfolding fill_block_def Let_def permute_def [symmetric] using True
      by (simp only: l2 [unfolded Let_def] if_True prod.case l3 [unfolded Let_def] xn [symmetric])
  next
    case False
    show ?thesis
      unfolding fill_block_def Let_def permute_def [symmetric] using False
      by (simp only: l1 [unfolded Let_def] if_False prod.case l3 [unfolded Let_def])
  qed
qed


lemma OWORDS_64: "ARGON2_VSX_OWORDS_IN_BLOCK = 64"
  by (simp add: ARGON2_VSX_OWORDS_IN_BLOCK_def ARGON2_BLOCK_SIZE_def)

lemma QWORDS_128: "ARGON2_QWORDS_IN_BLOCK = 128"
  by (simp add: ARGON2_QWORDS_IN_BLOCK_def ARGON2_BLOCK_SIZE_def)

lemma length_load_state [simp]: "length (load_state b) = 64"
  by (simp add: load_state_def OWORDS_64)

lemma load_state_nth: "i < 64 \<Longrightarrow> load_state b ! i = (b ! (2 * i), b ! (2 * i + 1))"
  by (simp add: load_state_def OWORDS_64 VSX_LOADU_def mult.commute)

lemma length_block_xor [simp]: "length (block_xor a b) = min (length a) (length b)"
  by (simp add: block_xor_def)

lemma block_xor_nth: "i < length a \<Longrightarrow> i < length b \<Longrightarrow> block_xor a b ! i = a ! i XOR b ! i"
  by (simp add: block_xor_def)

lemma words_of_nth_any:
  assumes "j < 2 * length vs"
  shows "words_of vs ! j = (if even j then fst (vs ! (j div 2)) else snd (vs ! (j div 2)))"
proof -
  have i: "j div 2 < length vs" using assms by simp
  show ?thesis
  proof (cases "even j")
    case True
    then have "j = 2 * (j div 2)" by simp
    then show ?thesis using words_of_nth [OF i] True by metis
  next
    case False
    then have "j = 2 * (j div 2) + 1" by (simp add: odd_two_times_div_two_succ)
    then show ?thesis using words_of_nth [OF i] False by metis
  qed
qed

lemma words_of_load_state:
  assumes "length b = 128"
  shows "words_of (load_state b) = b"
proof (rule nth_equalityI)
  show "length (words_of (load_state b)) = length b"
    using assms by (simp add: length_words_of)
next
  fix j assume "j < length (words_of (load_state b))"
  then have j: "j < 128" by (simp add: length_words_of)
  then have i: "j div 2 < 64" by simp
  have e: "even j \<Longrightarrow> 2 * (j div 2) = j" by simp
  have o: "odd j \<Longrightarrow> Suc (2 * (j div 2)) = j" by (simp add: odd_two_times_div_two_succ)
  show "words_of (load_state b) ! j = b ! j"
    using j i e o by (simp add: words_of_nth_any load_state_nth)
qed

lemma load_state_words_of:
  assumes "length s = 64"
  shows "load_state (words_of s) = s"
proof (rule nth_equalityI)
  show "length (load_state (words_of s)) = length s"
    using assms by simp
next
  fix i assume "i < length (load_state (words_of s))"
  then have i: "i < 64" by simp
  then have "i < length s" using assms by simp
  from words_of_nth [OF this] show "load_state (words_of s) ! i = s ! i"
    using i by (simp add: load_state_nth)
qed

lemma xor_load:
  assumes "length s = 64" "length r = 128"
  shows "map (\<lambda>i. vec_xor (s ! i) (VSX_LOADU r (i * 2))) [0..<64] =
         load_state (block_xor (words_of s) r)"
proof (rule nth_equalityI)
  show "length (map (\<lambda>i. vec_xor (s ! i) (VSX_LOADU r (i * 2))) [0..<64]) =
        length (load_state (block_xor (words_of s) r))"
    by simp
next
  fix i assume "i < length (map (\<lambda>i. vec_xor (s ! i) (VSX_LOADU r (i * 2))) [0..<64])"
  then have i: "i < 64" by simp
  then have il: "i < length s" using assms by simp
  have b: "2 * i < 128" "2 * i + 1 < 128" using i by simp_all
  show "map (\<lambda>i. vec_xor (s ! i) (VSX_LOADU r (i * 2))) [0..<64] ! i =
        load_state (block_xor (words_of s) r) ! i"
    using i b assms words_of_nth [OF il]
    by (simp add: load_state_nth block_xor_nth length_words_of vec_xor_def VSX_LOADU_def
        mult.commute)
qed

lemma words_of_xor:
  assumes "length a = 64" "length b = 64"
  shows "words_of (map (\<lambda>i. vec_xor (a ! i) (b ! i)) [0..<64]) = block_xor (words_of a) (words_of b)"
proof (rule nth_equalityI)
  show "length (words_of (map (\<lambda>i. vec_xor (a ! i) (b ! i)) [0..<64])) =
        length (block_xor (words_of a) (words_of b))"
    using assms by (simp add: length_words_of)
next
  fix j assume "j < length (words_of (map (\<lambda>i. vec_xor (a ! i) (b ! i)) [0..<64]))"
  then have j: "j < 128" by (simp add: length_words_of)
  then have i: "j div 2 < 64" by simp
  show "words_of (map (\<lambda>i. vec_xor (a ! i) (b ! i)) [0..<64]) ! j =
        block_xor (words_of a) (words_of b) ! j"
    using j i assms
    by (simp add: words_of_nth_any block_xor_nth length_words_of vec_xor_def)
qed

lemma fill_block_words:
  assumes s: "length s = 64" and r: "length r = 128" and n: "length n = 128"
  shows "fill_block s r n w =
     (let x = block_xor (words_of s) r;
          pre = (if w then block_xor x n else x);
          res = block_xor (permute_words x) pre
      in (load_state res, res))"
proof -
  let ?x = "block_xor (words_of s) r"
  let ?pre = "if w then block_xor ?x n else ?x"
  let ?xr = "map (\<lambda>i. vec_xor (s ! i) (VSX_LOADU r (i * 2))) [0..<64]"
  let ?prer = "if w then map (\<lambda>i. vec_xor (?xr ! i) (VSX_LOADU n (i * 2))) [0..<64] else ?xr"
  let ?resr = "map (\<lambda>i. vec_xor (permute ?xr ! i) (?prer ! i)) [0..<64]"
  have lx: "length ?x = 128" using s r by (simp add: length_words_of)
  have xr: "?xr = load_state ?x" using s r by (rule xor_load)
  have wx: "words_of ?xr = ?x" unfolding xr using lx by (rule words_of_load_state)
  have xn: "map (\<lambda>i. vec_xor (?xr ! i) (VSX_LOADU n (i * 2))) [0..<64] = load_state (block_xor ?x n)"
    using xor_load [of ?xr n] n wx by simp
  have prer: "?prer = load_state ?pre"
    using xr xn by (cases w) simp_all
  have lpre: "length ?pre = 128" using lx n by simp
  have wres: "words_of ?resr = block_xor (permute_words ?x) ?pre"
  proof -
    have "words_of ?resr = block_xor (words_of (permute ?xr)) (words_of ?prer)"
      by (rule words_of_xor) (simp_all split: if_splits)
    also have "words_of ?prer = ?pre"
      unfolding prer using lpre by (rule words_of_load_state)
    also have "words_of (permute ?xr) = permute_words ?x"
      unfolding xr permute_words_def ..
    finally show ?thesis .
  qed
  have resr: "?resr = load_state (words_of ?resr)"
    by (rule load_state_words_of [symmetric]) simp
  have "fill_block s r n w = (?resr, words_of ?resr)"
    using fill_block_registers [of s n r w] s n
    by (simp add: OWORDS_64 QWORDS_128 Let_def)
  also have "\<dots> = (load_state (words_of ?resr), words_of ?resr)"
    using resr by simp
  finally show ?thesis
    unfolding wres by (simp add: Let_def)
qed

section \<open>The permutation network on the grid of registers\<close>

lemma round_at_nth:
  assumes d: "distinct [i0, i1, i2, i3, i4, i5, i6, i7]"
    and l: "\<forall>i \<in> set [i0, i1, i2, i3, i4, i5, i6, i7]. i < length st"
  shows "round_at i0 i1 i2 i3 i4 i5 i6 i7 st ! j =
     (let r = vsx8_list (BLAKE2_ROUND_VSX
                (st ! i0, st ! i1, st ! i2, st ! i3, st ! i4, st ! i5, st ! i6, st ! i7))
      in if j = i0 then r ! 0 else if j = i1 then r ! 1 else if j = i2 then r ! 2
         else if j = i3 then r ! 3 else if j = i4 then r ! 4 else if j = i5 then r ! 5
         else if j = i6 then r ! 6 else if j = i7 then r ! 7 else st ! j)"
proof -
  obtain r0 r1 r2 r3 r4 r5 r6 r7 where
    r: "BLAKE2_ROUND_VSX (st ! i0, st ! i1, st ! i2, st ! i3, st ! i4, st ! i5, st ! i6, st ! i7)
          = (r0, r1, r2, r3, r4, r5, r6, r7)"
    by (rule vsx8_list.cases)
  show ?thesis
    using d l unfolding round_at_def r by (auto simp add: nth_list_update)
qed

lemma row_round_nth:
  assumes "length st = 64" "i < 8"
  shows "row_round i st ! j =
     (if j div 8 = i
      then vsx8_list (BLAKE2_ROUND_VSX
             (st ! (8 * i), st ! (8 * i + 1), st ! (8 * i + 2), st ! (8 * i + 3),
              st ! (8 * i + 4), st ! (8 * i + 5), st ! (8 * i + 6), st ! (8 * i + 7))) ! (j mod 8)
      else st ! j)"
proof -
  have m: "j div 8 = i \<Longrightarrow> j = 8 * i + j mod 8" by auto
  have c: "j mod 8 = 0 \<or> j mod 8 = 1 \<or> j mod 8 = 2 \<or> j mod 8 = 3 \<or> j mod 8 = 4 \<or>
           j mod 8 = 5 \<or> j mod 8 = 6 \<or> j mod 8 = 7" by presburger
  have n: "j div 8 \<noteq> i \<Longrightarrow> j \<noteq> 8 * i \<and> j \<noteq> 8 * i + 1 \<and> j \<noteq> 8 * i + 2 \<and> j \<noteq> 8 * i + 3 \<and>
           j \<noteq> 8 * i + 4 \<and> j \<noteq> 8 * i + 5 \<and> j \<noteq> 8 * i + 6 \<and> j \<noteq> 8 * i + 7" by auto
  have r: "row_round i st ! j =
     (let r = vsx8_list (BLAKE2_ROUND_VSX
             (st ! (8 * i), st ! (8 * i + 1), st ! (8 * i + 2), st ! (8 * i + 3),
              st ! (8 * i + 4), st ! (8 * i + 5), st ! (8 * i + 6), st ! (8 * i + 7)))
      in if j = 8 * i then r ! 0 else if j = 8 * i + 1 then r ! 1 else if j = 8 * i + 2 then r ! 2
         else if j = 8 * i + 3 then r ! 3 else if j = 8 * i + 4 then r ! 4
         else if j = 8 * i + 5 then r ! 5
         else if j = 8 * i + 6 then r ! 6 else if j = 8 * i + 7 then r ! 7 else st ! j)"
    unfolding row_round_def using assms
    by (subst round_at_nth) simp_all
  show ?thesis
  proof (cases "j div 8 = i")
    case True
    from m [OF True] c show ?thesis
      unfolding r Let_def using True by (elim disjE) simp_all
  next
    case False
    from n [OF False] show ?thesis
      unfolding r Let_def using False by simp
  qed
qed



lemma column_round_nth:
  assumes "length st = 64" "i < 8"
  shows "column_round i st ! j =
     (if j mod 8 = i \<and> j < 64
      then vsx8_list (BLAKE2_ROUND_VSX
             (st ! i, st ! (8 + i), st ! (16 + i), st ! (24 + i),
              st ! (32 + i), st ! (40 + i), st ! (48 + i), st ! (56 + i))) ! (j div 8)
      else st ! j)"
proof -
  have r: "\<And>j. column_round i st ! j =
     (let r = vsx8_list (BLAKE2_ROUND_VSX
             (st ! i, st ! (8 + i), st ! (16 + i), st ! (24 + i),
              st ! (32 + i), st ! (40 + i), st ! (48 + i), st ! (56 + i)))
      in if j = i then r ! 0 else if j = 8 + i then r ! 1 else if j = 16 + i then r ! 2
         else if j = 24 + i then r ! 3 else if j = 32 + i then r ! 4
         else if j = 40 + i then r ! 5
         else if j = 48 + i then r ! 6 else if j = 56 + i then r ! 7 else st ! j)"
    unfolding column_round_def using assms
    by (subst round_at_nth) (simp_all add: Let_def)
  show ?thesis
  proof (cases "j mod 8 = i \<and> j < 64")
    case True
    define q where "q = j div 8"
    have jq: "j = 8 * q + i"
      using True div_mult_mod_eq [of j 8] by (simp add: q_def mult.commute)
    have q8: "q < 8" using True less_mult_imp_div_less [of j 8 8] by (simp add: q_def)
    have qd: "(8 * q + i) div 8 = q" "(8 * q + i) mod 8 = i" using assms(2) by simp_all
    consider "q = 0" | "q = 1" | "q = 2" | "q = 3" | "q = 4" | "q = 5" | "q = 6" | "q = 7"
      using q8 by arith
    then show ?thesis
      unfolding r Let_def jq qd using assms(2)
      by cases simp_all
  next
    case False
    have "\<And>k. k < 8 \<Longrightarrow> j \<noteq> 8 * k + i"
      using False assms(2) by auto
    from this [of 0] this [of 1] this [of 2] this [of 3] this [of 4] this [of 5] this [of 6]
      this [of 7]
    show ?thesis
      unfolding r Let_def using False by auto
  qed
qed

lemma fold_row_round_nth:
  assumes l: "length st = 64" and k: "k \<le> 8"
  shows "fold row_round [0..<k] st ! j =
     (if j div 8 < k
      then vsx8_list (BLAKE2_ROUND_VSX
             (st ! (8 * (j div 8)), st ! (8 * (j div 8) + 1), st ! (8 * (j div 8) + 2),
              st ! (8 * (j div 8) + 3), st ! (8 * (j div 8) + 4), st ! (8 * (j div 8) + 5),
              st ! (8 * (j div 8) + 6), st ! (8 * (j div 8) + 7))) ! (j mod 8)
      else st ! j)"
  using k
proof (induction k arbitrary: j)
  case 0
  show ?case by simp
next
  case (Suc k)
  then have k8: "k < 8" "k \<le> 8" by simp_all
  let ?F = "fold row_round [0..<k] st"
  have lF: "length ?F = 64" using l by (simp add: length_fold_same)
  have keep: "?F ! (8 * k + m) = st ! (8 * k + m)" if "m < 8" for m
  proof -
    have "(8 * k + m) div 8 = k" using that by simp
    then show ?thesis using Suc.IH [OF k8(2), of "8 * k + m"] by simp
  qed
  have keep0: "?F ! (8 * k) = st ! (8 * k)" using keep [of 0] by simp
  show ?case
  proof (cases "j div 8 = k")
    case True
    show ?thesis
      unfolding fold_upt_Suc row_round_nth [OF lF k8(1)]
      using True by (simp add: keep keep0 keep [of 1, simplified] keep [of 2, simplified])
  next
    case False
    show ?thesis
      unfolding fold_upt_Suc row_round_nth [OF lF k8(1)] Suc.IH [OF k8(2)]
      using False by (simp add: less_Suc_eq)
  qed
qed


lemma fold_column_round_nth:
  assumes l: "length st = 64" and k: "k \<le> 8"
  shows "fold column_round [0..<k] st ! j =
     (if j mod 8 < k \<and> j < 64
      then vsx8_list (BLAKE2_ROUND_VSX
             (st ! (j mod 8), st ! (8 + j mod 8), st ! (16 + j mod 8), st ! (24 + j mod 8),
              st ! (32 + j mod 8), st ! (40 + j mod 8), st ! (48 + j mod 8),
              st ! (56 + j mod 8))) ! (j div 8)
      else st ! j)"
  using k
proof (induction k arbitrary: j)
  case 0
  show ?case by simp
next
  case (Suc k)
  then have k8: "k < 8" "k \<le> 8" by simp_all
  let ?F = "fold column_round [0..<k] st"
  have lF: "length ?F = 64" using l by (simp add: length_fold_same)
  have keep: "?F ! (m + k) = st ! (m + k)" if "m mod 8 = 0" for m
  proof -
    have "(m + k) mod 8 = k" using that k8 by (simp add: mod_add_eq [symmetric])
    then show ?thesis using Suc.IH [OF k8(2), of "m + k"] by simp
  qed
  have keep0: "?F ! k = st ! k" using keep [of 0] by simp
  show ?case
  proof (cases "j mod 8 = k \<and> j < 64")
    case True
    show ?thesis
      unfolding fold_upt_Suc column_round_nth [OF lF k8(1)]
      using True by (simp add: keep keep0)
  next
    case False
    show ?thesis
      unfolding fold_upt_Suc column_round_nth [OF lF k8(1)] Suc.IH [OF k8(2)]
      using False by (auto simp add: less_Suc_eq)
  qed
qed

text \<open>
  The permutation network on the 8 by 8 grid of registers: register \<open>j\<close> is in row
  \<open>j div 8\<close> and column \<open>j mod 8\<close>; every row goes through one round, then every column
  of the result does.
\<close>

lemma permute_nth:
  assumes l: "length st = 64" and j: "j < 64"
  shows "permute st ! j =
     vsx8_list (BLAKE2_ROUND_VSX
        (fold row_round [0..<8] st ! (j mod 8), fold row_round [0..<8] st ! (8 + j mod 8),
         fold row_round [0..<8] st ! (16 + j mod 8), fold row_round [0..<8] st ! (24 + j mod 8),
         fold row_round [0..<8] st ! (32 + j mod 8), fold row_round [0..<8] st ! (40 + j mod 8),
         fold row_round [0..<8] st ! (48 + j mod 8), fold row_round [0..<8] st ! (56 + j mod 8)))
       ! (j div 8)"
proof -
  have lR: "length (fold row_round [0..<8] st) = 64"
    using l by (simp add: length_fold_same)
  show ?thesis
    unfolding permute_def fold_column_round_nth [OF lR order_refl]
    using j by simp
qed

lemma rows_nth:
  assumes l: "length st = 64" and j: "j < 64"
  shows "fold row_round [0..<8] st ! j =
      vsx8_list (BLAKE2_ROUND_VSX
             (st ! (8 * (j div 8)), st ! (8 * (j div 8) + 1), st ! (8 * (j div 8) + 2),
              st ! (8 * (j div 8) + 3), st ! (8 * (j div 8) + 4), st ! (8 * (j div 8) + 5),
              st ! (8 * (j div 8) + 6), st ! (8 * (j div 8) + 7))) ! (j mod 8)"
proof -
  have "j div 8 < 8" using j less_mult_imp_div_less [of j 8 8] by simp
  then show ?thesis
    unfolding fold_row_round_nth [OF l order_refl] by (simp only: if_True)
qed

lemma word_rotr_shifts:
  assumes "0 < k" "k < 64"
  shows "word_rotr k (w :: u64) = drop_bit k w OR push_bit (64 - k) w"
proof (rule bit_word_eqI)
  fix n assume "n < LENGTH(64)"
  then have n: "n < 64" by simp
  have a: "n + k < 64 \<Longrightarrow> (n + k) mod 64 = n + k" by simp
  have b: "\<not> n + k < 64 \<Longrightarrow> (n + k) mod 64 = n + k - 64 \<and> 64 - k \<le> n \<and> n - (64 - k) = n + k - 64"
  proof -
    assume h: "\<not> n + k < 64"
    have "(n + k) mod 64 = n + k - 64"
      using h n assms by (simp add: mod_if)
    moreover have "64 - k \<le> n" using h by arith
    moreover have "n - (64 - k) = n + k - 64" using h assms by arith
    ultimately show ?thesis by simp
  qed
  have c: "\<not> n + k < 64 \<Longrightarrow> \<not> bit w (n + k)"
    using bit_imp_le_length [of w "n + k"] by auto
  have d: "n + k < 64 \<Longrightarrow> \<not> (64 - k \<le> n)" using assms by simp
  show "bit (word_rotr k w) n = bit (drop_bit k w OR push_bit (64 - k) w) n"
    using n a b c d
    by (cases "n + k < 64") (simp_all add: bit_word_rotr_iff bit_simps add.commute)
qed

lemmas rotr_eval = word_rotr_shifts [of 32, simplified] word_rotr_shifts [of 24, simplified]
  word_rotr_shifts [of 16, simplified] word_rotr_shifts [of 63, simplified]

lemmas round_eval = BLAKE2_ROUND_VSX.simps G1_VSX.simps G2_VSX.simps Let_def fBlaMka_vsx_lanes rot32_vsx rot24_vsx rot16_vsx rot63_vsx vec_xor_def
  fBlaMka_def lo32_def DIAGONALIZE_VSX_eq UNDIAGONALIZE_VSX_eq rotr_eval


text \<open>The network on the zero state and on a state with one bit set.\<close>

lemma BLAKE2_ROUND_VSX_zero:
  "BLAKE2_ROUND_VSX ((0,0),(0,0),(0,0),(0,0),(0,0),(0,0),(0,0),(0,0)) =
   ((0,0),(0,0),(0,0),(0,0),(0,0),(0,0),(0,0),(0,0))"
  by (simp add: round_eval)

lemma nth_all_same: "i < length xs \<Longrightarrow> \<forall>x \<in> set xs. x = c \<Longrightarrow> xs ! i = c"
  by simp

lemma zero8_nth:
  "k < 8 \<Longrightarrow> [(0,0),(0,0),(0,0),(0,0),(0,0),(0,0),(0,0),(0,0)] ! k = (0 :: u64, 0 :: u64)"
  by (rule nth_all_same) simp_all

lemma load_state_zero: "load_state (replicate 128 0) = replicate 64 (0, 0)"
  by (rule nth_equalityI) (simp_all add: load_state_nth)

lemma words_of_zero: "words_of (replicate 64 (0, 0)) = replicate 128 0"
  by (rule nth_equalityI) (simp_all add: length_words_of words_of_nth_any)

lemma rows_zero:
  assumes "j < 64"
  shows "fold row_round [0..<8] (replicate 64 (0, 0)) ! j = (0, 0)"
proof -
  have "j div 8 < 8" using assms less_mult_imp_div_less [of j 8 8] by simp
  then have "8 * (j div 8) + 7 < 64" by simp
  then show ?thesis
    using assms by (simp add: rows_nth BLAKE2_ROUND_VSX_zero zero8_nth)
qed

lemma permute_zero: "permute (replicate 64 (0, 0)) = replicate 64 (0, 0)"
proof (rule nth_equalityI)
  show "length (permute (replicate 64 (0, 0))) = length (replicate 64 (0 :: u64, 0 :: u64))"
    by simp
next
  fix j assume "j < length (permute (replicate 64 (0 :: u64, 0 :: u64)))"
  then have j: "j < 64" by simp
  then have d: "j div 8 < 8" using less_mult_imp_div_less [of j 8 8] by simp
  have m: "j mod 8 < 8" by simp
  show "permute (replicate 64 (0, 0)) ! j = replicate 64 (0 :: u64, 0 :: u64) ! j"
    using j m d by (simp add: permute_nth rows_zero BLAKE2_ROUND_VSX_zero zero8_nth)
qed

lemma permute_words_zero: "permute_words (replicate 128 0) = replicate 128 0"
  by (simp add: permute_words_def load_state_zero permute_zero words_of_zero)

lemma block_xor_zero: "length b = 128 \<Longrightarrow> block_xor (replicate 128 0) b = b"
  by (rule nth_equalityI) (simp_all add: block_xor_nth)


lemma load_state_unit:
  "load_state ((replicate 128 0)[0 := 1]) = (replicate 64 (0, 0))[0 := (1, 0)]"
  by (rule nth_equalityI) (auto simp add: load_state_nth nth_list_update)

lemma round_1:
  "BLAKE2_ROUND_VSX ((1,0),(0,0),(0,0),(0,0),(0,0),(0,0),(0,0),(0,0)) =
  ((302974465, 72057594054705155), (72057606939607296, 433473732147944454),
  (4037924207698434444, 865260684169192990),
  (146369298984993796, 721141123816882176),
  (288512980738638080, 2019522829009710784),
  (432630342084530703, 1127055471346177),
  (845528736727553, 72058693549752576), 2018745155809449510,
  432627039254680079)"
  by (simp add: round_eval)

lemma round_2:
  "fst (BLAKE2_ROUND_VSX ((302974465, 72057594054705155),(0,0),(0,0),(0,0),(0,0),(0,0),(0,0),(0,0)))
     = (1438657085065971445, 418361765745301682)"
  by (simp add: round_eval)

lemma vsx8_list_0: "vsx8_list v ! 0 = fst v"
  by (cases v rule: vsx8_list.cases) simp

lemma permute_unit_0:
  "permute ((replicate 64 (0, 0))[0 := (1, 0)]) ! 0 = (1438657085065971445, 418361765745301682)"
proof -
  let ?st = "(replicate 64 (0 :: u64, 0 :: u64))[0 := (1, 0)]"
  have l: "length ?st = 64" by simp
  have r0: "fold row_round [0..<8] ?st ! 0 = (302974465, 72057594054705155)"
    by (simp add: rows_nth [OF l] round_1)
  have rk: "fold row_round [0..<8] ?st ! (8 * k) = (0, 0)" if "0 < k" "k < 8" for k
    using that by (simp add: rows_nth [OF l] BLAKE2_ROUND_VSX_zero)
  show ?thesis
    using rk [of 1] rk [of 2] rk [of 3] rk [of 4] rk [of 5] rk [of 6] rk [of 7]
    by (simp add: permute_nth [OF l] r0 vsx8_list_0 round_2)
qed

section \<open>The block function as a whole\<close>

lemma fill_block_result:
  assumes "length s = 64" and "length r = 128" and "length n = 128"
  shows "let x = block_xor (words_of s) r;
             pre_permutation = (if accumulate then block_xor x n else x);
             result = block_xor (permute_words x) pre_permutation
         in snd (fill_block s r n accumulate) = result \<and>
            words_of (fst (fill_block s r n accumulate)) = result \<and>
            length result = 128"
proof -
  have l: "length (block_xor (words_of s) r) = 128"
    using assms by (simp add: length_words_of)
  have p: "length (permute_words (block_xor (words_of s) r)) = 128"
    by (simp add: permute_words_def length_words_of)
  have res: "length (block_xor (permute_words (block_xor (words_of s) r))
                (if accumulate then block_xor (block_xor (words_of s) r) n
                 else block_xor (words_of s) r)) = 128"
    using l p assms by simp
  show ?thesis
    unfolding fill_block_words [OF assms] Let_def
    using res by (simp add: words_of_load_state)
qed

text \<open>
  C1 (amended). For a state of 64 registers and blocks of 128 words, \<open>fill_block\<close>
  XORs the state with the reference block word by word; the saved copy
  \<open>pre_permutation\<close> is this post-XOR state, with the current contents of \<open>next_block\<close>
  XORed in when \<open>accumulate\<close> is set; the permutation network (8 row rounds, then 8
  column rounds) runs on the post-XOR state without \<open>next_block\<close>; the permuted state
  XORed with \<open>pre_permutation\<close> is written to \<open>next_block\<close> and is the new state.
\<close>

theorem fill_block_mixing:
  assumes "length s = 64" and "length r = 128" and "length n = 128"
  shows "let x = block_xor (words_of s) r;
             pre_permutation = (if accumulate then block_xor x n else x);
             result = block_xor (permute_words x) pre_permutation
         in snd (fill_block s r n accumulate) = result \<and>
            words_of (fst (fill_block s r n accumulate)) = result \<and>
            length result = 128"
  using assms by (rule fill_block_result)

theorem fill_block_mixing_witness:
  "let x = block_xor (words_of (replicate 64 (0, 0))) (replicate 128 0);
       pre_permutation = (if True then block_xor x ((replicate 128 0)[0 := 1]) else x);
       result = block_xor (permute_words x) pre_permutation
   in snd (fill_block (replicate 64 (0, 0)) (replicate 128 0) ((replicate 128 0)[0 := 1]) True)
        = result \<and>
      words_of (fst (fill_block (replicate 64 (0, 0)) (replicate 128 0)
                       ((replicate 128 0)[0 := 1]) True)) = result \<and>
      length result = 128"
  by (rule fill_block_mixing) simp_all

text \<open>
  C1 as stated fails when \<open>accumulate\<close> is set: the code permutes the state XORed with
  the reference block only, the claim permutes it with \<open>next_block\<close> XORed in as well.
  With a zero state, a zero reference block and a \<open>next_block\<close> whose first word is 1, the
  code writes \<open>next_block\<close> back unchanged, and the claimed result differs in word 0.
\<close>

theorem fill_block_claimed_counterexample:
  "snd (fill_block (replicate 64 (0, 0)) (replicate 128 0) ((replicate 128 0)[0 := 1]) True) \<noteq>
   fill_block_claimed (words_of (replicate 64 (0, 0))) (replicate 128 0)
     ((replicate 128 0)[0 := 1]) True"
proof -
  let ?n = "(replicate 128 (0 :: u64))[0 := 1]"
  have ln: "length ?n = 128" by simp
  have code: "snd (fill_block (replicate 64 (0, 0)) (replicate 128 0) ?n True) = ?n"
    by (simp add: fill_block_words words_of_zero block_xor_zero permute_words_zero Let_def)
  have "permute_words ?n ! 0 = 1438657085065971445"
    using words_of_nth_any [of 0 "permute (load_state ?n)"]
    by (simp add: permute_words_def load_state_unit permute_unit_0)
  then have claimed: "fill_block_claimed (words_of (replicate 64 (0, 0))) (replicate 128 0) ?n True ! 0
      = 1438657085065971444"
    by (simp add: fill_block_claimed_def words_of_zero block_xor_zero block_xor_nth
        permute_words_def length_words_of Let_def)
  have "?n ! 0 = 1" by simp
  with claimed code show ?thesis by auto
qed

section \<open>One iteration of the segment loop\<close>

lemma fill_segment_body_Inr:
  assumes "fill_segment_body index_alpha inst pos s = Inr s'"
  obtains pseudo_rand address_block input_block ref_lane where
    "lane_length inst \<noteq> 0"
    "draw_pseudo_rand inst pos (seg_memory s)
       (rotate_prev_offset inst (seg_curr_offset s) (seg_prev_offset s)) (seg_i s)
       (seg_address_block s) (seg_input_block s) = Inr (pseudo_rand, address_block, input_block)"
    "select_ref_lane inst pos pseudo_rand = Inr ref_lane"
    "unat (ucast (lane_length inst) * ref_lane) +
       unat (ucast (index_alpha inst (pos\<lparr>index := seg_i s\<rparr>)
               (ucast (pseudo_rand AND 0xFFFFFFFF)) (ref_lane = ucast (lane pos))) :: u64)
       < length (seg_memory s)"
    "unat (seg_curr_offset s) < length (seg_memory s)"
    "s' = s\<lparr>seg_memory := (seg_memory s)[unat (seg_curr_offset s) :=
                 snd (fill_block (seg_state s)
                   (seg_memory s ! (unat (ucast (lane_length inst) * ref_lane) +
                      unat (ucast (index_alpha inst (pos\<lparr>index := seg_i s\<rparr>)
                        (ucast (pseudo_rand AND 0xFFFFFFFF)) (ref_lane = ucast (lane pos))) :: u64)))
                   (seg_memory s ! unat (seg_curr_offset s)) (with_xor_flag inst pos))],
            seg_state := fst (fill_block (seg_state s)
                   (seg_memory s ! (unat (ucast (lane_length inst) * ref_lane) +
                      unat (ucast (index_alpha inst (pos\<lparr>index := seg_i s\<rparr>)
                        (ucast (pseudo_rand AND 0xFFFFFFFF)) (ref_lane = ucast (lane pos))) :: u64)))
                   (seg_memory s ! unat (seg_curr_offset s)) (with_xor_flag inst pos)),
            seg_address_block := address_block,
            seg_input_block := input_block,
            seg_prev_offset := rotate_prev_offset inst (seg_curr_offset s) (seg_prev_offset s)\<rparr>"
  using assms unfolding fill_segment_body_def Let_def
  by (auto split: if_splits sum.splits prod.splits)

lemma fill_block_zero:
  "fill_block (replicate 64 (0, 0)) (replicate 128 0) (replicate 128 0) w =
     (replicate 64 (0, 0), replicate 128 0)"
  by (simp add: fill_block_words words_of_zero block_xor_zero permute_words_zero Let_def
      load_state_zero)


lemma length_permute_words [simp]: "length (permute_words b) = 128"
  by (simp add: permute_words_def length_words_of)




lemma example_body:
  "fill_segment_body example_index_alpha example_instance example_position example_vars =
     Inr example_vars"
  by (simp add: fill_segment_body_def example_instance_def example_position_def
      example_vars_def example_index_alpha_def example_memory_def rotate_prev_offset_def
      draw_pseudo_rand_def data_independent_addressing_def select_ref_lane_def
      fill_block_zero with_xor_flag_def ARGON2_VERSION_10_def list_update_same_conv)


text \<open>
  C9. With a null instance \<open>fill_segment\<close> returns at once: no error, and the block matrix
  is the one it was given.
\<close>

theorem fill_segment_null_instance:
  "fill_segment index_alpha init_block_value address_block0 input_block0 None position mem = Inr mem"
  by (simp add: fill_segment_def)

lemma unat_drop_bit_32: "unat (drop_bit 32 (w :: u64)) = unat w div 2 ^ 32"
  by (simp add: drop_bit_eq_div unat_div)

lemma ucast_low_mask: "(ucast (w AND 0xFFFFFFFF :: u64) :: u32) = ucast w"
proof -
  have m: "(0xFFFFFFFF :: u64) = mask 32"
    by (simp add: mask_eq_exp_minus_1)
  show ?thesis
    unfolding m by (rule bit_word_eqI) (auto simp add: bit_simps)
qed

lemma select_ref_lane_Inr:
  assumes "select_ref_lane inst pos pseudo_rand = Inr ref_lane"
  shows "lanes inst \<noteq> 0"
    and "unat ref_lane =
          (if pass pos = 0 \<and> slice pos = 0 then unat (lane pos)
           else (unat pseudo_rand div 2 ^ 32) mod unat (lanes inst))"
  using assms
  by (auto simp add: select_ref_lane_def Let_def unat_ucast_up unat_mod unat_drop_bit_32
      split: if_splits)

lemma example2_body:
  "fill_segment_body example_index_alpha example2_instance example2_position example2_vars =
     Inr example2_vars"
  by (simp add: fill_segment_body_def example2_instance_def example2_position_def
      example2_vars_def example_index_alpha_def example2_memory_def rotate_prev_offset_def
      draw_pseudo_rand_def data_independent_addressing_def select_ref_lane_def
      fill_block_zero with_xor_flag_def ARGON2_VERSION_10_def list_update_same_conv)

text \<open>
  C6. In every iteration that completes, the reference lane is
  \<open>(pseudo_rand >> 32) mod lanes\<close>, except in pass 0 and slice 0, where it is the
  current lane whatever \<open>pseudo_rand\<close> is; the reference block is read from that lane, at
  the index \<open>index_alpha\<close> returns.
\<close>

theorem ref_lane_selection:
  assumes "fill_segment_body index_alpha inst pos s = Inr s'"
  shows "\<exists>(pseudo_rand :: u64) address_block input_block ref_lane.
     draw_pseudo_rand inst pos (seg_memory s)
       (rotate_prev_offset inst (seg_curr_offset s) (seg_prev_offset s)) (seg_i s)
       (seg_address_block s) (seg_input_block s) = Inr (pseudo_rand, address_block, input_block) \<and>
     select_ref_lane inst pos pseudo_rand = Inr ref_lane \<and>
     unat ref_lane =
       (if pass pos = 0 \<and> slice pos = 0 then unat (lane pos)
        else (unat pseudo_rand div 2 ^ 32) mod unat (lanes inst)) \<and>
     seg_memory s' = (seg_memory s)[unat (seg_curr_offset s) :=
        snd (fill_block (seg_state s)
               (seg_memory s ! (unat (ucast (lane_length inst) * ref_lane) +
                  unat (ucast (index_alpha inst (pos\<lparr>index := seg_i s\<rparr>)
                     (ucast pseudo_rand) (ref_lane = ucast (lane pos))) :: u64)))
               (seg_memory s ! unat (seg_curr_offset s)) (with_xor_flag inst pos))]"
  using assms
proof (rule fill_segment_body_Inr)
  fix pseudo_rand ref_lane :: u64 and address_block input_block :: block
  let ?r = "unat (ucast (lane_length inst) * ref_lane) +
       unat (ucast (index_alpha inst (pos\<lparr>index := seg_i s\<rparr>)
               (ucast (pseudo_rand AND 0xFFFFFFFF)) (ref_lane = ucast (lane pos))) :: u64)"
  let ?c = "unat (seg_curr_offset s)"
  assume d: "draw_pseudo_rand inst pos (seg_memory s)
       (rotate_prev_offset inst (seg_curr_offset s) (seg_prev_offset s)) (seg_i s)
       (seg_address_block s) (seg_input_block s) = Inr (pseudo_rand, address_block, input_block)"
    and sel: "select_ref_lane inst pos pseudo_rand = Inr ref_lane"
    and s': "s' = s\<lparr>seg_memory := (seg_memory s)[?c :=
                 snd (fill_block (seg_state s) (seg_memory s ! ?r) (seg_memory s ! ?c)
                        (with_xor_flag inst pos))],
            seg_state := fst (fill_block (seg_state s) (seg_memory s ! ?r) (seg_memory s ! ?c)
                        (with_xor_flag inst pos)),
            seg_address_block := address_block,
            seg_input_block := input_block,
            seg_prev_offset := rotate_prev_offset inst (seg_curr_offset s) (seg_prev_offset s)\<rparr>"
  have m: "seg_memory s' = (seg_memory s)[?c :=
                 snd (fill_block (seg_state s) (seg_memory s ! ?r) (seg_memory s ! ?c)
                        (with_xor_flag inst pos))]"
    by (simp add: s')
  show ?thesis
    using d sel select_ref_lane_Inr(2) [OF sel] m
    unfolding ucast_low_mask by blast
qed

theorem ref_lane_selection_witness:
  "\<exists>(pseudo_rand :: u64) address_block input_block ref_lane.
     draw_pseudo_rand example2_instance example2_position (seg_memory example2_vars)
       (rotate_prev_offset example2_instance (seg_curr_offset example2_vars)
          (seg_prev_offset example2_vars)) (seg_i example2_vars)
       (seg_address_block example2_vars) (seg_input_block example2_vars)
         = Inr (pseudo_rand, address_block, input_block) \<and>
     select_ref_lane example2_instance example2_position pseudo_rand = Inr ref_lane \<and>
     unat ref_lane =
       (if pass example2_position = 0 \<and> slice example2_position = 0
        then unat (lane example2_position)
        else (unat pseudo_rand div 2 ^ 32) mod unat (lanes example2_instance)) \<and>
     seg_memory example2_vars = (seg_memory example2_vars)[unat (seg_curr_offset example2_vars) :=
        snd (fill_block (seg_state example2_vars)
               (seg_memory example2_vars ! (unat (ucast (lane_length example2_instance) * ref_lane) +
                  unat (ucast (example_index_alpha example2_instance
                     (example2_position\<lparr>index := seg_i example2_vars\<rparr>)
                     (ucast pseudo_rand) (ref_lane = ucast (lane example2_position))) :: u64)))
               (seg_memory example2_vars ! unat (seg_curr_offset example2_vars))
               (with_xor_flag example2_instance example2_position))]"
  by (rule ref_lane_selection) (rule example2_body)

section \<open>Before the loop\<close>

lemma lane_predecessor_first:
  "0 < n \<Longrightarrow> c mod n = 0 \<Longrightarrow> lane_predecessor n c = c + n - 1"
  by (auto simp add: lane_predecessor_def)

lemma lane_predecessor_other:
  assumes "0 < n" "c mod n \<noteq> 0"
  shows "lane_predecessor n c = c - 1"
proof -
  have r: "0 < c mod n" "c mod n < n" using assms by simp_all
  then have "(c mod n + n - 1) mod n = c mod n - 1"
    by (metis (no_types, lifting) Nat.add_diff_assoc2 One_nat_def Suc_leI add.commute
        less_imp_diff_less mod_add_self1 mod_less)
  then have "lane_predecessor n c = c div n * n + c mod n - 1"
    using r by (simp add: lane_predecessor_def)
  then show ?thesis by simp
qed

lemma unat_ucast_8_32: "unat (ucast (a :: u8) :: u32) = unat a"
  by (simp add: unsigned_ucast_eq take_bit_nat_eq_self
      order_less_trans [OF unsigned_less [of a, simplified]])

lemma unat_starting_index:
  "unat (starting_index pos) = (if pass pos = 0 \<and> slice pos = 0 then 2 else 0)"
  by (auto simp add: starting_index_def)

text \<open>The offsets of a valid instance, as natural numbers.\<close>

lemma valid_instance_bounds:
  assumes v: "valid_instance inst pos"
  shows "0 < unat (lane_length inst)"
    and "unat (slice pos) * unat (segment_length inst) + unat (starting_index pos)
           < unat (lane_length inst)"
    and "unat (lane pos) * unat (lane_length inst) + unat (lane_length inst) < 2 ^ 32"
    and "unat (lane pos) * unat (lane_length inst) + unat (lane_length inst)
           \<le> unat (lanes inst) * unat (lane_length inst)"
proof -
  let ?L = "unat (lane_length inst)" and ?S = "unat (segment_length inst)"
  let ?l = "unat (lane pos)" and ?k = "unat (slice pos)" and ?N = "unat (lanes inst)"
  have S: "0 < ?S" and L: "?L = 4 * ?S" and l: "?l < ?N" and k: "?k < 4"
    and N: "?N * ?L < 2 ^ 32"
    using v unfolding valid_instance_def ARGON2_SYNC_POINTS_def by blast+
  show "0 < ?L" using S L by simp
  show "?k * ?S + unat (starting_index pos) < ?L"
  proof (cases "pass pos = 0 \<and> slice pos = 0")
    case True
    then show ?thesis using S L by (simp add: unat_starting_index)
  next
    case False
    have "?k * ?S \<le> 3 * ?S" using k by simp
    then show ?thesis using False S L by (simp add: unat_starting_index)
  qed
  have "Suc ?l \<le> ?N" using l by simp
  then have "Suc ?l * ?L \<le> ?N * ?L" by (rule mult_le_mono1)
  then show le: "?l * ?L + ?L \<le> ?N * ?L" by simp
  show "?l * ?L + ?L < 2 ^ 32" using le N by simp
qed

lemma unat_curr_offset:
  assumes v: "valid_instance inst pos"
  shows "unat (lane pos * lane_length inst + ucast (slice pos) * segment_length inst +
               starting_index pos) = first_offset inst pos + unat (starting_index pos)"
proof -
  let ?L = "unat (lane_length inst)" and ?S = "unat (segment_length inst)"
  let ?l = "unat (lane pos)" and ?k = "unat (slice pos)" and ?t = "unat (starting_index pos)"
  have b: "?l * ?L + ?k * ?S + ?t < 2 ^ 32"
    using valid_instance_bounds(2,3) [OF v] by simp
  have "unat (lane pos * lane_length inst + ucast (slice pos) * segment_length inst +
               starting_index pos) = (?l * ?L + ?k * ?S + ?t) mod 2 ^ 32"
    by (simp add: unat_word_ariths unat_ucast_8_32 mod_simps)
  also have "\<dots> = ?l * ?L + ?k * ?S + ?t"
    using b by simp
  finally show ?thesis by (simp add: first_offset_def)
qed

lemma fill_segment_init_Inr:
  assumes "fill_segment_init ibv a0 i0 inst pos mem = Inr s0"
  shows "lane_length inst \<noteq> 0"
    and "seg_memory s0 = mem"
    and "seg_i s0 = starting_index pos"
    and "seg_curr_offset s0 = lane pos * lane_length inst +
           ucast (slice pos) * segment_length inst + starting_index pos"
    and "seg_prev_offset s0 =
           (if seg_curr_offset s0 mod lane_length inst = 0
            then seg_curr_offset s0 + lane_length inst - 1 else seg_curr_offset s0 - 1)"
    and "unat (seg_prev_offset s0) < length mem"
    and "seg_state s0 = load_state (mem ! unat (seg_prev_offset s0))"
proof -
  let ?c = "lane pos * lane_length inst + ucast (slice pos) * segment_length inst +
              starting_index pos"
  show "lane_length inst \<noteq> 0"
    using assms unfolding fill_segment_init_def Let_def
    by (auto split: if_splits prod.splits)
  show "seg_memory s0 = mem"
    using assms unfolding fill_segment_init_def Let_def
    by (auto split: if_splits prod.splits)
  show "seg_i s0 = starting_index pos"
    using assms unfolding fill_segment_init_def Let_def
    by (auto split: if_splits prod.splits)
  show c: "seg_curr_offset s0 = ?c"
    using assms unfolding fill_segment_init_def Let_def
    by (auto split: if_splits prod.splits)
  show "seg_prev_offset s0 =
           (if seg_curr_offset s0 mod lane_length inst = 0
            then seg_curr_offset s0 + lane_length inst - 1 else seg_curr_offset s0 - 1)"
    unfolding c using assms unfolding fill_segment_init_def Let_def
    by (cases "?c mod lane_length inst = 0") (auto split: if_splits prod.splits)
  show "unat (seg_prev_offset s0) < length mem"
    using assms unfolding fill_segment_init_def Let_def
    by (cases "?c mod lane_length inst = 0") (auto split: if_splits prod.splits)
  show "seg_state s0 = load_state (mem ! unat (seg_prev_offset s0))"
    using assms unfolding fill_segment_init_def Let_def
    by (cases "?c mod lane_length inst = 0") (auto split: if_splits prod.splits)
qed

lemma fill_segment_init_total:
  assumes "lane_length inst \<noteq> 0"
    and "unat (if (lane pos * lane_length inst + ucast (slice pos) * segment_length inst +
                   starting_index pos) mod lane_length inst = 0
               then lane pos * lane_length inst + ucast (slice pos) * segment_length inst +
                    starting_index pos + lane_length inst - 1
               else lane pos * lane_length inst + ucast (slice pos) * segment_length inst +
                    starting_index pos - 1)
           < length mem"
  shows "\<exists>s0. fill_segment_init ibv a0 i0 inst pos mem = Inr s0"
  using assms unfolding fill_segment_init_def Let_def
  by (cases "(lane pos * lane_length inst + ucast (slice pos) * segment_length inst +
                starting_index pos) mod lane_length inst = 0")
     (auto split: if_splits prod.splits)

lemma unat_pred: "unat (w :: u32) \<noteq> 0 \<Longrightarrow> unat (w - 1) = unat w - 1"
  by (metis unat_minus_one unat_0)

lemma unat_add_small: "unat a + unat b < 2 ^ 32 \<Longrightarrow> unat (a + b :: u32) = unat a + unat b"
  by (simp add: unat_word_ariths)

lemma word_mod_eq_0: "(c mod n = 0) \<longleftrightarrow> (unat c mod unat n = 0)" for c n :: u32
  by (metis unat_mod unat_eq_0)

lemma word_mod_eq_1: "(c mod n = 1) \<longleftrightarrow> (unat c mod unat n = 1)" for c n :: u32
proof -
  have "(c mod n = 1) \<longleftrightarrow> (unat (c mod n) = unat (1 :: u32))"
    by (simp only: word_unat_eq_iff)
  then show ?thesis by (simp add: unat_mod)
qed

text \<open>Positions inside the lane of a valid instance.\<close>

lemma lane_position:
  fixes l n r :: nat
  assumes "r < n"
  shows "(l * n + r) div n = l" and "(l * n + r) mod n = r"
  using assms by (simp_all add: mult.commute)

lemma lane_predecessor_in_lane:
  fixes l n r :: nat
  assumes "r < n"
  shows "l * n \<le> lane_predecessor n (l * n + r)" and "lane_predecessor n (l * n + r) < l * n + n"
proof -
  have n: "0 < n" using assms by simp
  have "(r + n - 1) mod n < n" using n by simp
  then show "l * n \<le> lane_predecessor n (l * n + r)"
    and "lane_predecessor n (l * n + r) < l * n + n"
    using assms by (simp_all add: lane_predecessor_def)
qed

lemma unat_init_prev_offset:
  fixes c n :: u32
  assumes "0 < unat n" and "unat c mod unat n = 0 \<Longrightarrow> unat c + unat n < 2 ^ 32"
  shows "unat (if c mod n = 0 then c + n - 1 else c - 1) = lane_predecessor (unat n) (unat c)"
proof (cases "c mod n = 0")
  case True
  then have m: "unat c mod unat n = 0" by (simp add: word_mod_eq_0)
  have "unat (c + n) = unat c + unat n"
    using assms(2) [OF m] by (rule unat_add_small)
  moreover from this have "unat (c + n) \<noteq> 0" using assms(1) by simp
  ultimately have "unat (c + n - 1) = unat c + unat n - 1"
    by (simp add: unat_pred)
  then show ?thesis
    using True m assms(1) by (simp add: lane_predecessor_first)
next
  case False
  then have m: "unat c mod unat n \<noteq> 0" by (simp add: word_mod_eq_0)
  then have "unat c \<noteq> 0" by (metis mod_0)
  then have "unat (c - 1) = unat c - 1" by (rule unat_pred)
  then show ?thesis
    using False m assms(1) by (simp add: lane_predecessor_other)
qed


lemma fill_segment_init_valid:
  assumes v: "valid_instance inst pos" and m: "valid_memory inst mem"
  shows "\<exists>s0. fill_segment_init init_block_value address_block0 input_block0 inst pos mem = Inr s0 \<and>
      seg_memory s0 = mem \<and>
      seg_i s0 = starting_index pos \<and>
      unat (seg_curr_offset s0) = first_offset inst pos + unat (starting_index pos) \<and>
      unat (seg_prev_offset s0) =
        lane_predecessor (unat (lane_length inst)) (unat (seg_curr_offset s0)) \<and>
      unat (lane pos) * unat (lane_length inst) \<le> unat (seg_prev_offset s0) \<and>
      unat (seg_prev_offset s0) < unat (lane pos) * unat (lane_length inst) + unat (lane_length inst) \<and>
      unat (seg_prev_offset s0) < length mem \<and>
      seg_state s0 = load_state (mem ! unat (seg_prev_offset s0))"
proof -
  let ?L = "unat (lane_length inst)" and ?S = "unat (segment_length inst)"
  let ?l = "unat (lane pos)" and ?k = "unat (slice pos)" and ?t = "unat (starting_index pos)"
  let ?c = "lane pos * lane_length inst + ucast (slice pos) * segment_length inst +
              starting_index pos"
  let ?p = "if ?c mod lane_length inst = 0 then ?c + lane_length inst - 1 else ?c - 1"
  note b = valid_instance_bounds [OF v]
  have c: "unat ?c = ?l * ?L + (?k * ?S + ?t)"
    using unat_curr_offset [OF v] by (simp add: first_offset_def)
  have cm: "unat ?c mod ?L = ?k * ?S + ?t"
    unfolding c using b(2) by (simp add: mult.commute)
  have ov: "unat ?c + ?L < 2 ^ 32" if "unat ?c mod ?L = 0"
  proof -
    have "?k * ?S + ?t = 0" using that cm by linarith
    with c have "unat ?c = ?l * ?L" by linarith
    with b(3) show ?thesis by linarith
  qed
  have p: "unat ?p = lane_predecessor ?L (unat ?c)"
    using b(1) ov by (rule unat_init_prev_offset)
  have lo: "?l * ?L \<le> unat ?p" and hi: "unat ?p < ?l * ?L + ?L"
    unfolding p c using lane_predecessor_in_lane [OF b(2)] by simp_all
  have len: "unat ?p < length mem"
    using hi b(4) m by (simp add: valid_memory_def)
  have nz: "lane_length inst \<noteq> 0"
    using b(1) by (simp add: unat_gt_0)
  obtain s0 where s0: "fill_segment_init init_block_value address_block0 input_block0 inst pos mem = Inr s0"
    using fill_segment_init_total [OF nz len] by blast
  note f = fill_segment_init_Inr [OF s0]
  have pe: "seg_prev_offset s0 = ?p" using f(5) unfolding f(4) .
  have "seg_memory s0 = mem" by (rule f(2))
  moreover have "seg_i s0 = starting_index pos" by (rule f(3))
  moreover have "unat (seg_curr_offset s0) = first_offset inst pos + unat (starting_index pos)"
    unfolding f(4) by (rule unat_curr_offset [OF v])
  moreover have "unat (seg_prev_offset s0) = lane_predecessor ?L (unat (seg_curr_offset s0))"
    unfolding pe f(4) by (rule p)
  moreover have "?l * ?L \<le> unat (seg_prev_offset s0)"
    unfolding pe by (rule lo)
  moreover have "unat (seg_prev_offset s0) < ?l * ?L + ?L"
    unfolding pe by (rule hi)
  moreover have "unat (seg_prev_offset s0) < length mem"
    by (rule f(6))
  moreover have "seg_state s0 = load_state (mem ! unat (seg_prev_offset s0))"
    by (rule f(7))
  ultimately show ?thesis
    using s0 by (intro exI [of _ s0]) simp
qed

lemma example_valid:
  "valid_instance example_instance example_position"
  "valid_memory example_instance example_memory"
  by (simp_all add: valid_instance_def valid_memory_def example_instance_def
      example_position_def example_memory_def ARGON2_SYNC_POINTS_def QWORDS_128)

text \<open>
  C10. For a valid instance and block matrix, \<open>fill_segment\<close> reaches the loop without
  error, and the state buffer then holds the 128 words of the block at \<open>prev_offset\<close>,
  which is the offset before the first offset to fill in the circular order of the
  current lane. The first call of \<open>fill_block\<close> takes this state.
\<close>

theorem state_initialised_from_predecessor:
  assumes v: "valid_instance inst pos" and m: "valid_memory inst mem"
  shows "\<exists>s0. fill_segment_init init_block_value address_block0 input_block0 inst pos mem = Inr s0 \<and>
      unat (seg_curr_offset s0) = first_offset inst pos + unat (starting_index pos) \<and>
      unat (seg_prev_offset s0) =
        lane_predecessor (unat (lane_length inst)) (unat (seg_curr_offset s0)) \<and>
      unat (lane pos) * unat (lane_length inst) \<le> unat (seg_prev_offset s0) \<and>
      unat (seg_prev_offset s0) < unat (lane pos) * unat (lane_length inst) + unat (lane_length inst) \<and>
      unat (seg_prev_offset s0) < length mem \<and>
      words_of (seg_state s0) = mem ! unat (seg_prev_offset s0) \<and>
      (\<forall>index_alpha s'. fill_segment_body index_alpha inst pos s0 = Inr s' \<longrightarrow>
         (\<exists>ref_block. ref_block \<in> set mem \<and>
            (seg_state s', seg_memory s' ! unat (seg_curr_offset s0)) =
              fill_block (load_state (mem ! unat (seg_prev_offset s0))) ref_block
                (mem ! unat (seg_curr_offset s0)) (with_xor_flag inst pos)))"
proof -
  obtain s0 where i: "fill_segment_init init_block_value address_block0 input_block0 inst pos mem = Inr s0"
    and mem: "seg_memory s0 = mem"
    and c: "unat (seg_curr_offset s0) = first_offset inst pos + unat (starting_index pos)"
    and p: "unat (seg_prev_offset s0) =
        lane_predecessor (unat (lane_length inst)) (unat (seg_curr_offset s0))"
    and lo: "unat (lane pos) * unat (lane_length inst) \<le> unat (seg_prev_offset s0)"
    and hi: "unat (seg_prev_offset s0) < unat (lane pos) * unat (lane_length inst) + unat (lane_length inst)"
    and len: "unat (seg_prev_offset s0) < length mem"
    and st: "seg_state s0 = load_state (mem ! unat (seg_prev_offset s0))"
    using fill_segment_init_valid [OF v m, of init_block_value address_block0 input_block0] by blast
  have "mem ! unat (seg_prev_offset s0) \<in> set mem"
    using len by simp
  then have "length (mem ! unat (seg_prev_offset s0)) = 128"
    using m by (simp add: valid_memory_def QWORDS_128)
  then have w: "words_of (seg_state s0) = mem ! unat (seg_prev_offset s0)"
    unfolding st by (rule words_of_load_state)
  have first: "\<exists>ref_block. ref_block \<in> set mem \<and>
            (seg_state s', seg_memory s' ! unat (seg_curr_offset s0)) =
              fill_block (load_state (mem ! unat (seg_prev_offset s0))) ref_block
                (mem ! unat (seg_curr_offset s0)) (with_xor_flag inst pos)"
    if body: "fill_segment_body index_alpha inst pos s0 = Inr s'" for index_alpha s'
    using body
  proof (rule fill_segment_body_Inr)
    fix pseudo_rand ref_lane :: u64 and address_block input_block :: block
    let ?r = "unat (ucast (lane_length inst) * ref_lane) +
       unat (ucast (index_alpha inst (pos\<lparr>index := seg_i s0\<rparr>)
               (ucast (pseudo_rand AND 0xFFFFFFFF)) (ref_lane = ucast (lane pos))) :: u64)"
    let ?c = "unat (seg_curr_offset s0)"
    assume r: "?r < length (seg_memory s0)" and cl: "?c < length (seg_memory s0)"
      and s': "s' = s0\<lparr>seg_memory := (seg_memory s0)[?c :=
                 snd (fill_block (seg_state s0) (seg_memory s0 ! ?r) (seg_memory s0 ! ?c)
                        (with_xor_flag inst pos))],
            seg_state := fst (fill_block (seg_state s0) (seg_memory s0 ! ?r) (seg_memory s0 ! ?c)
                        (with_xor_flag inst pos)),
            seg_address_block := address_block,
            seg_input_block := input_block,
            seg_prev_offset := rotate_prev_offset inst (seg_curr_offset s0) (seg_prev_offset s0)\<rparr>"
    have "mem ! ?r \<in> set mem" using r mem by simp
    moreover have "(seg_state s', seg_memory s' ! ?c) =
        fill_block (load_state (mem ! unat (seg_prev_offset s0))) (mem ! ?r) (mem ! ?c)
          (with_xor_flag inst pos)"
      using cl by (simp add: s' mem st)
    ultimately show ?thesis by blast
  qed
  show ?thesis
    using i c p lo hi len w first by (intro exI [of _ s0]) blast
qed

theorem state_initialised_from_predecessor_witness:
  "\<exists>s0. fill_segment_init example_init_block_value (replicate 128 0) (replicate 128 0) example_instance example_position
            example_memory = Inr s0 \<and>
      unat (seg_curr_offset s0) =
        first_offset example_instance example_position + unat (starting_index example_position) \<and>
      unat (seg_prev_offset s0) =
        lane_predecessor (unat (lane_length example_instance)) (unat (seg_curr_offset s0)) \<and>
      unat (lane example_position) * unat (lane_length example_instance)
        \<le> unat (seg_prev_offset s0) \<and>
      unat (seg_prev_offset s0) < unat (lane example_position) * unat (lane_length example_instance)
         + unat (lane_length example_instance) \<and>
      unat (seg_prev_offset s0) < length example_memory \<and>
      words_of (seg_state s0) = example_memory ! unat (seg_prev_offset s0) \<and>
      (\<forall>index_alpha s'. fill_segment_body index_alpha example_instance example_position s0
            = Inr s' \<longrightarrow>
         (\<exists>ref_block. ref_block \<in> set example_memory \<and>
            (seg_state s', seg_memory s' ! unat (seg_curr_offset s0)) =
              fill_block (load_state (example_memory ! unat (seg_prev_offset s0))) ref_block
                (example_memory ! unat (seg_curr_offset s0))
                (with_xor_flag example_instance example_position)))"
  by (rule state_initialised_from_predecessor [OF example_valid])

section \<open>The offsets through the loop\<close>

lemma unat_rotate_prev_offset:
  "unat (rotate_prev_offset inst cu pv) =
     (if unat cu mod unat (lane_length inst) = 1 then unat cu - 1 else unat pv)"
proof (cases "cu mod lane_length inst = 1")
  case True
  then have m: "unat cu mod unat (lane_length inst) = 1" by (simp add: word_mod_eq_1)
  then have "unat cu \<noteq> 0" by (metis mod_0 zero_neq_one)
  then show ?thesis using True m by (simp add: rotate_prev_offset_def unat_pred)
next
  case False
  then have "unat cu mod unat (lane_length inst) \<noteq> 1" by (simp add: word_mod_eq_1)
  then show ?thesis using False by (simp add: rotate_prev_offset_def)
qed

text \<open>
  One turn of the loop on the offsets: \<open>curr_offset\<close> is at position \<open>r\<close> of lane \<open>l\<close>, and the
  next position is still inside the lane.
\<close>

lemma prev_offset_step:
  fixes cu pv :: u32 and l r :: nat
  assumes L: "2 < unat (lane_length inst)"
    and c: "unat cu = l * unat (lane_length inst) + r"
    and r: "r + 1 < unat (lane_length inst)"
    and nov: "l * unat (lane_length inst) + unat (lane_length inst) < 2 ^ 32"
    and inv: "r = 1 \<or> unat pv = lane_predecessor (unat (lane_length inst)) (unat cu)"
  shows "r = 0 \<or> unat (rotate_prev_offset inst cu pv + 1)
           = lane_predecessor (unat (lane_length inst)) (unat cu + 1)"
proof (cases "r = 0")
  case True
  then show ?thesis by simp
next
  case False
  let ?L = "unat (lane_length inst)"
  have rL: "r < ?L" using r by simp
  have m: "unat cu mod ?L = r"
    unfolding c using rL by (simp add: mult.commute)
  have m1: "(unat cu + 1) mod ?L = r + 1"
  proof -
    have "unat cu + 1 = l * ?L + (r + 1)" using c by simp
    then show ?thesis using r by (simp add: mult.commute)
  qed
  have next_pred: "lane_predecessor ?L (unat cu + 1) = unat cu"
    using lane_predecessor_other [of ?L "unat cu + 1"] m1 L by simp
  have rot: "unat (rotate_prev_offset inst cu pv) = unat cu - 1"
  proof (cases "r = 1")
    case True
    then show ?thesis using m by (simp add: unat_rotate_prev_offset)
  next
    case r1: False
    with inv have "unat pv = lane_predecessor ?L (unat cu)" by simp
    also have "\<dots> = unat cu - 1"
      using lane_predecessor_other [of ?L "unat cu"] m False L by simp
    finally show ?thesis using m r1 by (simp add: unat_rotate_prev_offset)
  qed
  have pos: "0 < unat cu" using c False by simp
  have "unat (rotate_prev_offset inst cu pv) + unat (1 :: u32) < 2 ^ 32"
    using rot pos c rL nov by simp
  then have "unat (rotate_prev_offset inst cu pv + 1) = unat cu - 1 + 1"
    using rot by (simp add: unat_add_small)
  then show ?thesis using pos next_pred by simp
qed

lemma unat_Suc_less:
  fixes i n :: u32
  assumes "i < n"
  shows "unat (i + 1) = unat i + 1"
proof -
  have "unat i < unat n" using assms by (simp add: word_less_nat_alt)
  moreover have "unat n < 2 ^ 32" using unsigned_less [of n] by simp
  ultimately have "unat i + unat (1 :: u32) < 2 ^ 32" by simp
  then show ?thesis using unat_add_small [of i 1] by simp
qed

lemma advance_fields:
  "seg_i (advance s) = seg_i s + 1"
  "seg_curr_offset (advance s) = seg_curr_offset s + 1"
  "seg_prev_offset (advance s) = seg_prev_offset s + 1"
  "seg_memory (advance s) = seg_memory s"
  "seg_state (advance s) = seg_state s"
  "seg_address_block (advance s) = seg_address_block s"
  "seg_input_block (advance s) = seg_input_block s"
  by (simp_all add: advance_def)

lemma fill_segment_body_fields:
  assumes "fill_segment_body index_alpha inst pos s = Inr s'"
  shows "seg_curr_offset s' = seg_curr_offset s"
    and "seg_prev_offset s' = rotate_prev_offset inst (seg_curr_offset s) (seg_prev_offset s)"
    and "length (seg_memory s') = length (seg_memory s)"
    and "unat (seg_curr_offset s) < length (seg_memory s)"
  using assms by (auto elim!: fill_segment_body_Inr)

lemma iteration_offsets:
  assumes v: "valid_instance inst pos" and m: "valid_memory inst mem"
    and i: "fill_segment_init ibv a0 i0 inst pos mem = Inr s0"
    and it: "iteration index_alpha inst pos s0 s"
  shows "length (seg_memory s) = length mem \<and>
         unat (seg_curr_offset s) = first_offset inst pos + unat (seg_i s) \<and>
         (unat (seg_i s) < unat (segment_length inst) \<longrightarrow>
            unat (seg_curr_offset s) mod unat (lane_length inst) = 1 \<or>
            unat (seg_prev_offset s) =
              lane_predecessor (unat (lane_length inst)) (unat (seg_curr_offset s)))"
  using it
proof (induction rule: iteration.induct)
  case iteration_first
  obtain s1 where "fill_segment_init ibv a0 i0 inst pos mem = Inr s1"
    and f: "seg_memory s1 = mem" "seg_i s1 = starting_index pos"
      "unat (seg_curr_offset s1) = first_offset inst pos + unat (starting_index pos)"
      "unat (seg_prev_offset s1) =
        lane_predecessor (unat (lane_length inst)) (unat (seg_curr_offset s1))"
    using fill_segment_init_valid [OF v m, of ibv a0 i0] by blast
  with i have "s1 = s0" by simp
  with f show ?case by simp
next
  case (iteration_next s s')
  let ?L = "unat (lane_length inst)" and ?S = "unat (segment_length inst)"
  let ?l = "unat (lane pos)" and ?k = "unat (slice pos)"
  let ?n = "advance (s'\<lparr>seg_i := seg_i s\<rparr>)"
  note b = fill_segment_body_fields [OF iteration_next.hyps(3)]
  have S: "0 < ?S" and L: "?L = 4 * ?S" and k: "?k < 4"
    using v unfolding valid_instance_def ARGON2_SYNC_POINTS_def by blast+
  have lt: "unat (seg_i s) < ?S"
    using iteration_next.hyps(2) by (simp add: word_less_nat_alt)
  have len: "length (seg_memory s) = length mem"
    and c: "unat (seg_curr_offset s) = first_offset inst pos + unat (seg_i s)"
    and inv: "unat (seg_curr_offset s) mod ?L = 1 \<or>
              unat (seg_prev_offset s) = lane_predecessor ?L (unat (seg_curr_offset s))"
    using iteration_next.IH lt by blast+
  have kS: "?k * ?S + ?S \<le> ?L"
  proof -
    have "Suc ?k \<le> 4" using k by simp
    then have "Suc ?k * ?S \<le> 4 * ?S" by (rule mult_le_mono1)
    then show ?thesis using L by simp
  qed
  define r where "r = ?k * ?S + unat (seg_i s)"
  have cr: "unat (seg_curr_offset s) = ?l * ?L + r"
    using c by (simp add: first_offset_def r_def)
  have rL: "r < ?L" using lt kS by (simp add: r_def)
  have cm: "unat (seg_curr_offset s) mod ?L = r"
    unfolding cr using rL by (simp add: mult.commute)
  have nov: "?l * ?L + ?L < 2 ^ 32" by (rule valid_instance_bounds(3) [OF v])
  have i1: "unat (seg_i ?n) = unat (seg_i s) + 1"
    using unat_Suc_less [OF iteration_next.hyps(2)] by (simp add: advance_fields)
  have "unat (seg_curr_offset s) + unat (1 :: u32) < 2 ^ 32"
    using cr rL nov by simp
  then have c1: "unat (seg_curr_offset ?n) = unat (seg_curr_offset s) + 1"
    using unat_add_small [of "seg_curr_offset s" 1] by (simp add: advance_fields b(1))
  have p1: "seg_prev_offset ?n =
              rotate_prev_offset inst (seg_curr_offset s) (seg_prev_offset s) + 1"
    by (simp add: advance_fields b(2))
  have "length (seg_memory ?n) = length mem"
    using len b(3) by (simp add: advance_fields)
  moreover have "unat (seg_curr_offset ?n) = first_offset inst pos + unat (seg_i ?n)"
    using c c1 i1 by simp
  moreover have "unat (seg_curr_offset ?n) mod ?L = 1 \<or>
            unat (seg_prev_offset ?n) = lane_predecessor ?L (unat (seg_curr_offset ?n))"
    if n: "unat (seg_i ?n) < ?S"
  proof -
    have r1: "r + 1 < ?L" using n i1 kS by (simp add: r_def)
    have L2: "2 < ?L" using S L by simp
    have "r = 1 \<or> unat (seg_prev_offset s) = lane_predecessor ?L (unat (seg_curr_offset s))"
      using inv cm by simp
    from prev_offset_step [OF L2 cr r1 nov this]
    have "r = 0 \<or> unat (seg_prev_offset ?n) = lane_predecessor ?L (unat (seg_curr_offset ?n))"
      unfolding p1 c1 .
    moreover have "unat (seg_curr_offset ?n) mod ?L = 1" if "r = 0"
    proof -
      have "unat (seg_curr_offset ?n) = ?l * ?L + 1"
        unfolding c1 cr using that by simp
      moreover have "(?l * ?L + 1) mod ?L = 1"
        using lane_position(2) [of 1 ?L ?l] L2 by simp
      ultimately show ?thesis by simp
    qed
    ultimately show ?thesis by blast
  qed
  ultimately show ?case by blast
qed

lemma example_init:
  "fill_segment_init example_init_block_value (replicate 128 0) (replicate 128 0) example_instance example_position
     example_memory = Inr example_vars"
  by (simp add: fill_segment_init_def example_instance_def example_position_def
      example_memory_def example_vars_def data_independent_addressing_def starting_index_def
      load_state_zero)

lemma example_second_iteration:
  "iteration example_index_alpha example_instance example_position example_vars
     (advance example_vars)"
proof -
  have "iteration example_index_alpha example_instance example_position example_vars
          (advance (example_vars\<lparr>seg_i := seg_i example_vars\<rparr>))"
  proof (rule iteration_next)
    show "iteration example_index_alpha example_instance example_position example_vars
            example_vars"
      by (rule iteration_first)
    show "seg_i example_vars < segment_length example_instance"
      by (simp add: example_vars_def example_instance_def)
    show "fill_segment_body example_index_alpha example_instance example_position example_vars
            = Inr example_vars"
      by (rule example_body)
  qed
  then show ?thesis by simp
qed

text \<open>
  C8 (amended). For a valid instance and block matrix: before the loop \<open>prev_offset\<close> is
  the offset before the first offset to fill in the circular order of the lane, the last
  offset of the lane when filling starts at the first one. Inside the loop
  \<open>prev_offset\<close> is reset to \<open>curr_offset - 1\<close> when \<open>curr_offset\<close> is on the second
  position of the lane (\<open>curr_offset mod lane_length = 1\<close>) and left as it is otherwise.
  In every iteration \<open>curr_offset\<close> is the first offset of the segment plus the index,
  and after that first statement \<open>prev_offset\<close> is the circular predecessor of
  \<open>curr_offset\<close> in the current lane; the data-dependent \<open>pseudo_rand\<close> is word 0 of the
  block there.
\<close>

theorem prev_offset_circular_predecessor:
  assumes v: "valid_instance inst pos" and m: "valid_memory inst mem"
    and i: "fill_segment_init init_block_value address_block0 input_block0 inst pos mem = Inr s0"
    and it: "iteration index_alpha inst pos s0 s"
    and lt: "seg_i s < segment_length inst"
  shows "unat (seg_prev_offset s0) =
           lane_predecessor (unat (lane_length inst)) (unat (seg_curr_offset s0)) \<and>
         unat (seg_curr_offset s) = first_offset inst pos + unat (seg_i s) \<and>
         rotate_prev_offset inst (seg_curr_offset s) (seg_prev_offset s) =
           (if unat (seg_curr_offset s) mod unat (lane_length inst) = 1
            then seg_curr_offset s - 1 else seg_prev_offset s) \<and>
         unat (rotate_prev_offset inst (seg_curr_offset s) (seg_prev_offset s)) =
           lane_predecessor (unat (lane_length inst)) (unat (seg_curr_offset s)) \<and>
         unat (lane pos) * unat (lane_length inst)
           \<le> lane_predecessor (unat (lane_length inst)) (unat (seg_curr_offset s)) \<and>
         lane_predecessor (unat (lane_length inst)) (unat (seg_curr_offset s))
           < unat (lane pos) * unat (lane_length inst) + unat (lane_length inst) \<and>
         (\<not> data_independent_addressing inst pos \<longrightarrow>
            draw_pseudo_rand inst pos (seg_memory s)
              (rotate_prev_offset inst (seg_curr_offset s) (seg_prev_offset s)) (seg_i s)
              (seg_address_block s) (seg_input_block s) =
            Inr (seg_memory s !
                   lane_predecessor (unat (lane_length inst)) (unat (seg_curr_offset s)) ! 0,
                 seg_address_block s, seg_input_block s))"
proof -
  let ?L = "unat (lane_length inst)" and ?S = "unat (segment_length inst)"
  let ?l = "unat (lane pos)" and ?k = "unat (slice pos)"
  let ?c = "unat (seg_curr_offset s)"
  let ?p = "rotate_prev_offset inst (seg_curr_offset s) (seg_prev_offset s)"
  obtain s1 where "fill_segment_init init_block_value address_block0 input_block0 inst pos mem = Inr s1"
    and f: "unat (seg_prev_offset s1) = lane_predecessor ?L (unat (seg_curr_offset s1))"
    using fill_segment_init_valid [OF v m, of init_block_value address_block0 input_block0] by blast
  with i have "s1 = s0" by simp
  with f have before: "unat (seg_prev_offset s0) = lane_predecessor ?L (unat (seg_curr_offset s0))"
    by simp
  have S: "0 < ?S" and L: "?L = 4 * ?S" and k: "?k < 4"
    using v unfolding valid_instance_def ARGON2_SYNC_POINTS_def by blast+
  have L0: "0 < ?L" using S L by simp
  have lti: "unat (seg_i s) < ?S" using lt by (simp add: word_less_nat_alt)
  have len: "length (seg_memory s) = length mem"
    and c: "?c = first_offset inst pos + unat (seg_i s)"
    and inv: "?c mod ?L = 1 \<or> unat (seg_prev_offset s) = lane_predecessor ?L ?c"
    using iteration_offsets [OF v m i it] lti by blast+
  have rule: "?p = (if ?c mod ?L = 1 then seg_curr_offset s - 1 else seg_prev_offset s)"
    by (simp add: rotate_prev_offset_def word_mod_eq_1)
  have pred: "unat ?p = lane_predecessor ?L ?c"
  proof (cases "?c mod ?L = 1")
    case True
    then have "lane_predecessor ?L ?c = ?c - 1"
      using lane_predecessor_other [OF L0, of ?c] by simp
    then show ?thesis using True by (simp add: unat_rotate_prev_offset)
  next
    case False
    then show ?thesis using inv by (simp add: unat_rotate_prev_offset)
  qed
  have kS: "?k * ?S + ?S \<le> ?L"
  proof -
    have "Suc ?k \<le> 4" using k by simp
    then have "Suc ?k * ?S \<le> 4 * ?S" by (rule mult_le_mono1)
    then show ?thesis using L by simp
  qed
  define r where "r = ?k * ?S + unat (seg_i s)"
  have cr: "?c = ?l * ?L + r" using c by (simp add: first_offset_def r_def)
  have rL: "r < ?L" using lti kS by (simp add: r_def)
  have lo: "?l * ?L \<le> lane_predecessor ?L ?c" and hi: "lane_predecessor ?L ?c < ?l * ?L + ?L"
    unfolding cr using lane_predecessor_in_lane [OF rL] by simp_all
  have "lane_predecessor ?L ?c < length (seg_memory s)"
    using hi valid_instance_bounds(4) [OF v] m len by (simp add: valid_memory_def)
  then have draw: "draw_pseudo_rand inst pos (seg_memory s) ?p (seg_i s)
              (seg_address_block s) (seg_input_block s) =
            Inr (seg_memory s ! lane_predecessor ?L ?c ! 0,
                 seg_address_block s, seg_input_block s)"
    if "\<not> data_independent_addressing inst pos"
    using that by (simp add: draw_pseudo_rand_def pred)
  show ?thesis
    using before c rule pred lo hi draw by blast
qed

theorem prev_offset_circular_predecessor_witness:
  "unat (seg_prev_offset example_vars) =
     lane_predecessor (unat (lane_length example_instance)) (unat (seg_curr_offset example_vars)) \<and>
   unat (seg_curr_offset example_vars) =
     first_offset example_instance example_position + unat (seg_i example_vars) \<and>
   rotate_prev_offset example_instance (seg_curr_offset example_vars)
       (seg_prev_offset example_vars) =
     (if unat (seg_curr_offset example_vars) mod unat (lane_length example_instance) = 1
      then seg_curr_offset example_vars - 1 else seg_prev_offset example_vars) \<and>
   unat (rotate_prev_offset example_instance (seg_curr_offset example_vars)
           (seg_prev_offset example_vars)) =
     lane_predecessor (unat (lane_length example_instance)) (unat (seg_curr_offset example_vars))"
proof -
  have "seg_i example_vars < segment_length example_instance"
    by (simp add: example_vars_def example_instance_def)
  from prev_offset_circular_predecessor [OF example_valid example_init iteration_first this]
  show ?thesis by blast
qed

text \<open>
  C8 as stated fails inside the loop: the code recomputes \<open>prev_offset\<close> on the second
  position of the lane, not on the first, and without wrapping. In the small instance the
  second iteration starts with \<open>curr_offset = 1\<close> and \<open>prev_offset = 8\<close>, the first offset
  after the lane, which is not the predecessor of offset 1; the code resets \<open>prev_offset\<close>
  to 0, and the rule as stated would leave 8.
\<close>

theorem prev_offset_rule_counterexample:
  "fill_segment_init example_init_block_value (replicate 128 0) (replicate 128 0)
     example_instance example_position example_memory = Inr example_vars \<and>
   iteration example_index_alpha example_instance example_position example_vars
     (advance example_vars) \<and>
   seg_i (advance example_vars) < segment_length example_instance \<and>
   seg_curr_offset (advance example_vars) = 1 \<and>
   seg_prev_offset (advance example_vars) = 8 \<and>
   unat (seg_prev_offset (advance example_vars)) \<noteq>
     lane_predecessor (unat (lane_length example_instance))
       (unat (seg_curr_offset (advance example_vars))) \<and>
   rotate_prev_offset example_instance 1 8 = 0 \<and>
   rotate_prev_offset_claimed example_instance 1 8 = 8 \<and>
   rotate_prev_offset example_instance (seg_curr_offset (advance example_vars))
       (seg_prev_offset (advance example_vars)) \<noteq>
     rotate_prev_offset_claimed example_instance (seg_curr_offset (advance example_vars))
       (seg_prev_offset (advance example_vars))"
proof -
  have a: "seg_i (advance example_vars) < segment_length example_instance"
    "seg_curr_offset (advance example_vars) = 1"
    "seg_prev_offset (advance example_vars) = 8"
    by (simp_all add: advance_def example_vars_def example_instance_def)
  have b: "rotate_prev_offset example_instance 1 8 = 0"
    "rotate_prev_offset_claimed example_instance 1 8 = 8"
    by (simp_all add: rotate_prev_offset_def rotate_prev_offset_claimed_def
        example_instance_def)
  have c: "lane_predecessor (unat (lane_length example_instance)) (unat (1 :: u32)) = 0"
    by (simp add: lane_predecessor_def example_instance_def)
  show ?thesis
    using example_init example_second_iteration a b c by simp
qed

section \<open>The accumulate rule\<close>














section \<open>The address stream\<close>





lemma compress_zero:
  "length x = 128 \<Longrightarrow> compress (replicate 128 0) x = block_xor (permute_words x) x"
  by (simp add: compress_def block_xor_zero)










section \<open>The loop and its iterations\<close>

text \<open>The loop ends in a state that the iterations reach, with the index at the bound.\<close>

lemma fill_segment_loop_iteration:
  assumes "iteration index_alpha inst pos s0 s"
    and "fill_segment_loop index_alpha inst pos s = Inr s'"
  shows "iteration index_alpha inst pos s0 s' \<and> \<not> seg_i s' < segment_length inst"
  using assms
proof (induction index_alpha inst pos s arbitrary: s' rule: fill_segment_loop.induct)
  case (1 index_alpha inst pos s)
  show ?case
  proof (cases "seg_i s < segment_length inst")
    case True
    then obtain s1 where b: "fill_segment_body index_alpha inst pos s = Inr s1"
      and l: "fill_segment_loop index_alpha inst pos (advance (s1\<lparr>seg_i := seg_i s\<rparr>)) = Inr s'"
      using "1.prems"(2) by (subst (asm) fill_segment_loop.simps) (simp split: sum.splits)
    have "iteration index_alpha inst pos s0 (advance (s1\<lparr>seg_i := seg_i s\<rparr>))"
      using "1.prems"(1) True b by (rule iteration_next)
    then show ?thesis
      using "1.IH" [OF True b _ l] by simp
  next
    case False
    then have "s' = s" using "1.prems"(2) by (subst (asm) fill_segment_loop.simps) simp
    then show ?thesis using False "1.prems"(1) by simp
  qed
qed

section \<open>A complete run\<close>

text \<open>The whole of \<open>fill_segment\<close> on the small instance: two iterations, no error.\<close>

lemma example_fill_segment:
  "fill_segment example_index_alpha example_init_block_value (replicate 128 0) (replicate 128 0)
     (Some example_instance) example_position example_memory = Inr example_memory"
proof -
  have b0: "fill_segment_body example_index_alpha example_instance example_position example_vars
             = Inr example_vars"
    by (rule example_body)
  have b1: "fill_segment_body example_index_alpha example_instance example_position
              (advance example_vars)
             = Inr ((advance example_vars)\<lparr>seg_prev_offset := 0\<rparr>)"
    by (simp add: fill_segment_body_def example_instance_def example_position_def
      example_vars_def example_index_alpha_def example_memory_def rotate_prev_offset_def
      draw_pseudo_rand_def data_independent_addressing_def select_ref_lane_def advance_def
      fill_block_zero with_xor_flag_def ARGON2_VERSION_10_def list_update_same_conv)
  have l0: "seg_i example_vars < segment_length example_instance"
    and l1: "seg_i (advance example_vars) < segment_length example_instance"
    and l2: "\<not> seg_i (advance ((advance example_vars)\<lparr>seg_prev_offset := 0\<rparr>))
               < segment_length example_instance"
    by (simp_all add: advance_def example_vars_def example_instance_def)
  have "fill_segment_loop example_index_alpha example_instance example_position example_vars =
          Inr (advance ((advance example_vars)\<lparr>seg_prev_offset := 0\<rparr>))"
    apply (subst fill_segment_loop.simps)
    apply (simp only: l0 if_True b0 sum.case)
    apply (simp add: fill_segment_loop.simps [of _ _ _ "advance example_vars"] l1 b1)
    apply (subst fill_segment_loop.simps)
    using l2 apply (simp add: advance_def)
    done
  then show ?thesis
    by (simp add: fill_segment_def example_init advance_def example_vars_def)
qed

section \<open>An instance that is not valid\<close>

lemma example3_init:
  "fill_segment_init example_init_block_value (replicate 128 0) (replicate 128 0)
     example3_instance example_position example_memory = Inr (example3_vars 0 0 3)"
  by (simp add: fill_segment_init_def example3_instance_def example_position_def
      example_memory_def example3_vars_def data_independent_addressing_def starting_index_def
      load_state_zero)

lemma example3_body:
  assumes "unat c < 8" and "unat (rotate_prev_offset example3_instance c p) < 8"
  shows "fill_segment_body example_index_alpha example3_instance example_position
           (example3_vars i c p) =
         Inr (example3_vars i c (rotate_prev_offset example3_instance c p))"
  using assms
  by (simp add: fill_segment_body_def example3_instance_def example_position_def
      example3_vars_def example_index_alpha_def example_memory_def
      draw_pseudo_rand_def data_independent_addressing_def select_ref_lane_def
      fill_block_zero with_xor_flag_def ARGON2_VERSION_10_def list_update_same_conv)

lemma example3_step:
  assumes it: "iteration example_index_alpha example3_instance example_position s0
                 (example3_vars i c p)"
    and i: "unat i < 8" and c: "unat c < 8"
    and p: "unat (rotate_prev_offset example3_instance c p) < 8"
  shows "iteration example_index_alpha example3_instance example_position s0
           (example3_vars (i + 1) (c + 1) (rotate_prev_offset example3_instance c p + 1))"
proof -
  have lt: "seg_i (example3_vars i c p) < segment_length example3_instance"
    using i by (simp add: example3_vars_def example3_instance_def word_less_nat_alt)
  from iteration_next [OF it lt example3_body [OF c p]]
  show ?thesis by (simp add: advance_def example3_vars_def)
qed

text \<open>
  Without validity the offsets leave the lane: at index 4 the loop fills offset 4, the
  first of the second lane, reading \<open>pseudo_rand\<close> at offset 3, the last of the first lane,
  while the predecessor of offset 4 in the circular order of its lane is offset 7.
\<close>

lemma prev_offset_invalid_instance:
  "iteration example_index_alpha example3_instance example_position (example3_vars 0 0 3)
     (example3_vars 4 4 3) \<and>
   seg_i (example3_vars 4 4 3) < segment_length example3_instance \<and>
   unat (rotate_prev_offset example3_instance 4 3) = 3 \<and>
   lane_predecessor (unat (lane_length example3_instance)) 4 = 7"
proof -
  have r: "rotate_prev_offset example3_instance 0 3 = 3"
    "rotate_prev_offset example3_instance 1 4 = 0"
    "rotate_prev_offset example3_instance 2 1 = 1"
    "rotate_prev_offset example3_instance 3 2 = 2"
    "rotate_prev_offset example3_instance 4 3 = 3"
    by (simp_all add: rotate_prev_offset_def example3_instance_def)
  have 0: "iteration example_index_alpha example3_instance example_position
             (example3_vars 0 0 3) (example3_vars 0 0 3)"
    by (rule iteration_first)
  have 1: "iteration example_index_alpha example3_instance example_position
             (example3_vars 0 0 3) (example3_vars 1 1 4)"
    using example3_step [OF 0] by (simp add: r)
  have 2: "iteration example_index_alpha example3_instance example_position
             (example3_vars 0 0 3) (example3_vars 2 2 1)"
    using example3_step [OF 1] by (simp add: r)
  have 3: "iteration example_index_alpha example3_instance example_position
             (example3_vars 0 0 3) (example3_vars 3 3 2)"
    using example3_step [OF 2] by (simp add: r)
  have 4: "iteration example_index_alpha example3_instance example_position
             (example3_vars 0 0 3) (example3_vars 4 4 3)"
    using example3_step [OF 3] by (simp add: r)
  have p: "lane_predecessor (unat (lane_length example3_instance)) 4 = 7"
    by (simp add: lane_predecessor_def example3_instance_def)
  have lt: "seg_i (example3_vars 4 4 3) < segment_length example3_instance"
    by (simp add: example3_vars_def example3_instance_def)
  have u: "unat (rotate_prev_offset example3_instance 4 3) = 3"
    unfolding r by simp
  show ?thesis
    using 4 lt u p by blast
qed

end
